theory Spec2Isabelle
  imports Main "HOL-Library.Word"
begin

section \<open>Bytes, sockets and text\<close>

text \<open>
  A shallow embedding of \<^verbatim>\<open>telnetlogger.c\<close>. A byte (\<^verbatim>\<open>unsigned char\<close>, or a
  \<^verbatim>\<open>char\<close> read through \<^verbatim>\<open>c & 0xFF\<close>) is an 8-bit word; C \<^verbatim>\<open>int\<close>s that stay
  far from their limits (\<^verbatim>\<open>offset\<close>, \<^verbatim>\<open>state\<close>, \<^verbatim>\<open>sizeof_buf\<close>, \<^verbatim>\<open>tries\<close>, lengths)
  are \<open>int\<close>.
\<close>

type_synonym byte = "8 word"

text \<open>A string literal of the source, as the bytes it stands for.\<close>

definition bytes :: "string \<Rightarrow> byte list" where
  "bytes s = map of_char s"

text \<open>
  One call \<^verbatim>\<open>recv(fd, &c, 1, flags)\<close> yields one byte (result 1), reports that the peer
  has shut the connection down (result 0), or fails (result -1; a receive timeout is
  such a failure).
\<close>

datatype recv_result = Byte byte | Eof | Err

fun recv_len :: "recv_result \<Rightarrow> int" where
  "recv_len (Byte c) = 1"
| "recv_len Eof = 0"
| "recv_len Err = -1"

text \<open>
  The connected socket, as far as the program can observe it: the results that the
  coming calls of \<^verbatim>\<open>recv\<close> will yield, and the messages handed to \<^verbatim>\<open>send\<close> so far, one
  list element for each call. The result of \<^verbatim>\<open>send\<close> is ignored by the source.
\<close>

record socket =
  incoming :: "recv_result list"
  outgoing :: "byte list list"

definition send :: "socket \<Rightarrow> byte list \<Rightarrow> socket" where
  "send fd msg = fd\<lparr>outgoing := outgoing fd @ [msg]\<rparr>"

section \<open>The NVT line reader: \<^verbatim>\<open>recv_nvt_line\<close>\<close>

text \<open>
  The local variables of \<^verbatim>\<open>recv_nvt_line\<close> together with the array \<^verbatim>\<open>buf\<close> it writes to
  and the messages it has sent. \<^verbatim>\<open>done\<close> is called \<open>is_done\<close> here.
\<close>

record nvt =
  buf :: "byte list"
  offset :: int
  state :: int
  is_done :: bool
  sent :: "byte list list"

text \<open>The echo of an appended byte in state 0: caret notation up to 26, else the byte.\<close>

definition echo :: "byte \<Rightarrow> byte list" where
  "echo c = (if c \<le> 26 then [0x5E, c + 0x41 - 1] else [c])"

text \<open>\<^verbatim>\<open>if (offset + 1 < sizeof_buf) buf[offset++] = c;\<close> and what is done otherwise.\<close>

definition append_byte :: "int \<Rightarrow> byte \<Rightarrow> nvt \<Rightarrow> nvt \<Rightarrow> nvt" where
  "append_byte sizeof_buf c otherwise v =
     (if offset v + 1 < sizeof_buf
      then v\<lparr>buf := (buf v)[nat (offset v) := c], offset := offset v + 1\<rparr>
      else otherwise)"

text \<open>
  The body of the \<^verbatim>\<open>switch (state)\<close> for one received byte \<open>c\<close>. The message that the
  \<^verbatim>\<open>default\<close> branch prints on the diagnostic stream is not modelled.
\<close>

definition nvt_byte :: "int \<Rightarrow> byte \<Rightarrow> nvt \<Rightarrow> nvt" where
  "nvt_byte sizeof_buf c v =
     (if state v = 0 \<or> state v = 1 then
        (if c = 0xFF then v\<lparr>state := 2\<rparr>
         else if c = 0 then v
         else if c = 0x0A then v
         else if c = 0x0D then v\<lparr>is_done := True\<rparr>
         else if c = 0x7F then
           (if offset v \<noteq> 0 then
              (let v1 = v\<lparr>offset := offset v - 1\<rparr>
               in if state v1 = 0 then v1\<lparr>sent := sent v1 @ [[0x08, 0x20, 0x08]]\<rparr> else v1)
            else v)
         else
           (let v1 = append_byte sizeof_buf c (v\<lparr>is_done := True\<rparr>) v;
                v2 = (if state v1 = 0 then v1\<lparr>sent := sent v1 @ [echo c]\<rparr> else v1)
            in if c = 3 \<or> c = 4 then v2\<lparr>is_done := True\<rparr> else v2))
      else if state v = 2 then
        (if c = 250 then v\<lparr>state := 20\<rparr>
         else if c = 251 then v\<lparr>state := 3\<rparr>
         else if c = 252 then v\<lparr>state := 4\<rparr>
         else if c = 253 then v\<lparr>state := 5\<rparr>
         else if c = 254 then v\<lparr>state := 6\<rparr>
         else if c = 255 then (append_byte sizeof_buf 0xFF v v)\<lparr>state := 0\<rparr>
         else v\<lparr>state := 0\<rparr>)
      else if state v = 20 then
        (if c = 0xFF then v\<lparr>state := 21\<rparr> else v)
      else if state v = 21 then
        (if c = 240 then v\<lparr>state := 0\<rparr> else v\<lparr>state := 20\<rparr>)
      else if state v = 3 \<or> state v = 4 \<or> state v = 5 \<or> state v = 6 then
        v\<lparr>state := 0\<rparr>
      else v\<lparr>state := 0\<rparr>)"

text \<open>
  What a call hands back: the returned \<^verbatim>\<open>int\<close>, the array \<^verbatim>\<open>buf\<close>, the caller's
  variable \<^verbatim>\<open>*in_state\<close>, and the socket.
\<close>

record line_result =
  ret :: int
  line_buf :: "byte list"
  line_state :: int
  line_fd :: socket

text \<open>The two statements after the loop: \<^verbatim>\<open>*in_state = state; return offset;\<close>\<close>

definition finish :: "recv_result list \<Rightarrow> nvt \<Rightarrow> line_result" where
  "finish rs v =
     \<lparr>ret = offset v, line_buf = buf v, line_state = state v,
      line_fd = \<lparr>incoming = rs, outgoing = sent v\<rparr>\<rparr>"

text \<open>
  The loop \<^verbatim>\<open>while (!done)\<close>, over the results of the coming \<^verbatim>\<open>recv\<close> calls. A failed
  \<^verbatim>\<open>recv\<close> returns -1 at once and leaves \<^verbatim>\<open>*in_state\<close> as the caller passed it
  (\<open>in_state\<close>); a shut-down connection returns 0 when \<^verbatim>\<open>offset\<close> is 0 and leaves the
  loop otherwise. When the list of results is used up the call is still blocked in
  \<^verbatim>\<open>recv\<close>: the value is \<open>None\<close>.
\<close>

fun nvt_loop :: "int \<Rightarrow> int \<Rightarrow> recv_result list \<Rightarrow> nvt \<Rightarrow> line_result option" where
  "nvt_loop sizeof_buf in_state [] v = None"
| "nvt_loop sizeof_buf in_state (Err # rs) v =
     Some \<lparr>ret = -1, line_buf = buf v, line_state = in_state,
           line_fd = \<lparr>incoming = rs, outgoing = sent v\<rparr>\<rparr>"
| "nvt_loop sizeof_buf in_state (Eof # rs) v =
     (if offset v = 0
      then Some \<lparr>ret = recv_len Eof, line_buf = buf v, line_state = state v,
                 line_fd = \<lparr>incoming = rs, outgoing = sent v\<rparr>\<rparr>
      else Some (finish rs v))"
| "nvt_loop sizeof_buf in_state (Byte c # rs) v =
     (let v' = nvt_byte sizeof_buf c v
      in if is_done v' then Some (finish rs v') else nvt_loop sizeof_buf in_state rs v')"

definition recv_nvt_line :: "socket \<Rightarrow> byte list \<Rightarrow> int \<Rightarrow> int \<Rightarrow> line_result option" where
  "recv_nvt_line fd buf0 sizeof_buf in_state =
     nvt_loop sizeof_buf in_state (incoming fd)
       \<lparr>buf = buf0, offset = 0, state = in_state, is_done = False, sent = outgoing fd\<rparr>"

text \<open>The line a call returned: the first \<^verbatim>\<open>ret\<close> bytes of the array.\<close>

definition line :: "line_result \<Rightarrow> byte list" where
  "line r = take (nat (ret r)) (line_buf r)"

section \<open>The credential logger\<close>

text \<open>
  \<^verbatim>\<open>isprint\<close> of the C library, in the "C" locale (the program never calls
  \<^verbatim>\<open>setlocale\<close>): the codes from space to tilde.
\<close>

definition isprint :: "byte \<Rightarrow> bool" where
  "isprint c = (0x20 \<le> c \<and> c \<le> 0x7E)"

text \<open>The conversion \<^verbatim>\<open>"\\x%02x"\<close>: backslash, x, and two lower-case hexadecimal digits.\<close>

definition hex_digit :: "byte \<Rightarrow> byte" where
  "hex_digit d = (if d < 10 then 0x30 + d else 0x61 + (d - 10))"

definition hex_escape :: "byte \<Rightarrow> byte list" where
  "hex_escape c = [0x5C, 0x78, hex_digit (c div 16), hex_digit (c mod 16)]"

text \<open>The body of the loop of \<^verbatim>\<open>print_string\<close>: what is printed for the byte \<open>c\<close>.\<close>

definition print_char :: "byte \<Rightarrow> byte list" where
  "print_char c =
     (if \<not> isprint c \<or> c = 0x5C \<or> c = 0x3C \<or> c = 0x27 \<or> c = 0x20 \<or> c = 0x22 \<or> c = 0x2C
      then hex_escape c
      else [c])"

text \<open>
  \<^verbatim>\<open>for (i = 0; i < len; i++)\<close> over \<^verbatim>\<open>str[i]\<close>. The stream \<open>fp\<close> is the text written
  to it so far.
\<close>

function print_string_from :: "int \<Rightarrow> byte list \<Rightarrow> byte list \<Rightarrow> int \<Rightarrow> byte list" where
  "print_string_from i fp str len =
     (if i < len then print_string_from (i + 1) (fp @ print_char (str ! nat i)) str len
      else fp)"
  by pat_completeness auto
termination
  by (relation "measure (\<lambda>(i, fp, str, len). nat (len - i))") auto

declare print_string_from.simps [simp del]

definition print_string :: "byte list \<Rightarrow> byte list \<Rightarrow> int \<Rightarrow> byte list" where
  "print_string fp str len = print_string_from 0 fp str len"

text \<open>
  \<^verbatim>\<open>matches\<close>: \<open>rhs\<close> is the NUL-terminated string (without its NUL), \<open>lhs\<close> and \<open>len\<close>
  the length-encoded one.
\<close>

definition matches :: "byte list \<Rightarrow> byte list \<Rightarrow> int \<Rightarrow> int" where
  "matches rhs lhs len =
     (if int (length rhs) = len \<and> take (nat len) lhs = take (nat len) rhs then 1 else 0)"

text \<open>
  A \<^verbatim>\<open>FILE *\<close> is \<open>None\<close> when it is \<^verbatim>\<open>NULL\<close>, else the text written to the stream so
  far. The mutex and \<^verbatim>\<open>fflush\<close> have no counterpart in a sequential model.
\<close>

definition print_passwords ::
    "byte list option \<Rightarrow> byte list \<Rightarrow> int \<Rightarrow> byte list \<Rightarrow> int \<Rightarrow> byte list option" where
  "print_passwords fp login login_len password password_len =
     (case fp of
        None \<Rightarrow> None
      | Some w \<Rightarrow>
          if matches (bytes ''shell'') login login_len \<noteq> 0
               \<and> matches (bytes ''sh'') password password_len \<noteq> 0 then Some w
          else if matches (bytes ''enable'') login login_len \<noteq> 0
               \<and> matches (bytes ''system'') password password_len \<noteq> 0 then Some w
          else
            (let w1 = print_string w login login_len;
                 w2 = w1 @ bytes '' '';
                 w3 = print_string w2 password password_len
             in Some (w3 @ [0x0A])))"

definition print_csv ::
    "byte list option \<Rightarrow> byte list \<Rightarrow> byte list \<Rightarrow> int \<Rightarrow> byte list \<Rightarrow> int
       \<Rightarrow> byte list option" where
  "print_csv fp hostname login login_len password password_len =
     (case fp of
        None \<Rightarrow> None
      | Some w \<Rightarrow>
          (let w1 = w @ hostname @ bytes '','';
               w2 = print_string w1 login login_len;
               w3 = w2 @ bytes '','';
               w4 = print_string w3 password password_len
           in Some (w4 @ [0x0A])))"

section \<open>The connection session: \<^verbatim>\<open>handle_connection\<close>\<close>

definition hello0 :: "byte list" where
  "hello0 = [0xFF, 0xFB, 0x03] @ [0xFF, 0xFB, 0x01] @ [0xFF, 0xFD, 0x1F] @ [0xFF, 0xFD, 0x18]
            @ [0x0D, 0x0A] @ bytes ''login: ''"

definition login_prompt :: "byte list" where
  "login_prompt = [0x0D, 0x0A] @ bytes ''login: ''"

definition password_prompt :: "byte list" where
  "password_prompt = [0x0D, 0x0A] @ bytes ''Password: ''"

definition login_incorrect :: "byte list" where
  "login_incorrect = [0x0D, 0x0A] @ bytes ''Login incorrect'' @ [0x0D, 0x0A]"

text \<open>
  The two lines the session writes on the diagnostic stream: \<^verbatim>\<open>recv,<peer>,<reason>\<close>
  (the reason is the text of \<^verbatim>\<open>errno\<close>, which is not modelled) and \<^verbatim>\<open>close,<peer>\<close>.
\<close>

datatype diag = Diag_recv | Diag_close

record session_result =
  conn :: socket
  stdout :: "byte list option"
  stderr :: "diag list"

text \<open>The labels \<^verbatim>\<open>error:\<close> (which goes on to \<^verbatim>\<open>end:\<close>) and \<^verbatim>\<open>end:\<close>.\<close>

definition error_exit :: "socket \<Rightarrow> byte list option \<Rightarrow> session_result" where
  "error_exit fd out = \<lparr>conn = fd, stdout = out, stderr = [Diag_recv, Diag_close]\<rparr>"

definition end_exit :: "socket \<Rightarrow> byte list option \<Rightarrow> session_result" where
  "end_exit fd out = \<lparr>conn = fd, stdout = out, stderr = [Diag_close]\<rparr>"

text \<open>
  The code from the label \<^verbatim>\<open>again:\<close> on, with the variables that are live there. The
  arrays \<^verbatim>\<open>login\<close> and \<^verbatim>\<open>password\<close> have 256 elements. \<^verbatim>\<open>tries++ < 5\<close> compares the
  value before the increment. \<^verbatim>\<open>sleep\<close> and the receive timeout are not modelled (a
  timeout is an \<open>Err\<close> among the results of \<^verbatim>\<open>recv\<close>).
\<close>

function again ::
    "byte list \<Rightarrow> byte list \<Rightarrow> int \<Rightarrow> int \<Rightarrow> byte list \<Rightarrow> byte list \<Rightarrow> socket
       \<Rightarrow> byte list option \<Rightarrow> session_result option" where
  "again peername hello tries state0 login password fd out =
     (let fd1 = send fd hello
      in case recv_nvt_line fd1 login 256 state0 of
           None \<Rightarrow> None
         | Some r1 \<Rightarrow>
             if ret r1 \<le> 0 then Some (error_exit (line_fd r1) out)
             else
               (let fd2 = send (line_fd r1) password_prompt;
                    state1 = (if line_state r1 = 0 then 1 else line_state r1)
                in case recv_nvt_line fd2 password 256 state1 of
                     None \<Rightarrow> None
                   | Some r2 \<Rightarrow>
                       if ret r2 \<le> 0 then Some (error_exit (line_fd r2) out)
                       else
                         (let out' = print_csv out peername (line_buf r1) (ret r1)
                                       (line_buf r2) (ret r2);
                              state2 = (if line_state r2 = 1 then 0 else line_state r2);
                              fd3 = send (line_fd r2) login_incorrect
                          in if tries < 5
                             then again peername login_prompt (tries + 1) state2
                                    (line_buf r1) (line_buf r2) fd3 out'
                             else Some (end_exit fd3 out'))))"
  by pat_completeness auto
termination
  by (relation "measure (\<lambda>(peername, hello, tries, rest). nat (5 - tries))") auto

declare again.simps [simp del]

text \<open>
  \<^verbatim>\<open>handle_connection\<close>: \<open>login0\<close> and \<open>password0\<close> are the contents of the two
  uninitialised arrays, \<open>out\<close> is the standard output.
\<close>

definition handle_connection ::
    "byte list \<Rightarrow> socket \<Rightarrow> byte list \<Rightarrow> byte list \<Rightarrow> byte list option
       \<Rightarrow> session_result option" where
  "handle_connection peername fd login0 password0 out =
     again peername hello0 0 0 login0 password0 fd out"

section \<open>Classes of input\<close>

text \<open>
  A plain byte is one that the Normal states (0 and 1) append and then go on: it is not
  IAC, NUL, line feed, carriage return, DEL, Ctrl-C or Ctrl-D.
\<close>

definition plain :: "byte \<Rightarrow> bool" where
  "plain c = (c \<noteq> 0xFF \<and> c \<noteq> 0 \<and> c \<noteq> 0x0A \<and> c \<noteq> 0x0D \<and> c \<noteq> 0x7F \<and> c \<noteq> 3 \<and> c \<noteq> 4)"

text \<open>The array \<open>b\<close> after the bytes \<open>cs\<close> have been stored from index \<open>k\<close> on.\<close>

fun write_at :: "byte list \<Rightarrow> nat \<Rightarrow> byte list \<Rightarrow> byte list" where
  "write_at b k [] = b"
| "write_at b k (c # cs) = write_at (b[k := c]) (Suc k) cs"

text \<open>
  The loop over bytes that all arrive (no \<^verbatim>\<open>recv\<close> fails) and do not complete the line:
  the variables after the last of them, or \<open>None\<close> when one of them sets \<^verbatim>\<open>done\<close>.
\<close>

fun nvt_feed :: "int \<Rightarrow> byte list \<Rightarrow> nvt \<Rightarrow> nvt option" where
  "nvt_feed sizeof_buf [] v = Some v"
| "nvt_feed sizeof_buf (c # cs) v =
     (let v' = nvt_byte sizeof_buf c v
      in if is_done v' then None else nvt_feed sizeof_buf cs v')"

text \<open>
  The payload of a well-formed subnegotiation: every IAC in it is followed, inside the
  payload, by a byte other than SE (IAC IAC stands for the data byte 255), so that the
  first IAC SE after SB is the one that ends the block.
\<close>

fun subneg_payload :: "byte list \<Rightarrow> bool" where
  "subneg_payload [] = True"
| "subneg_payload [c] = (c \<noteq> 255)"
| "subneg_payload (c # d # cs) =
     (if c = 255 then d \<noteq> 240 \<and> subneg_payload cs else subneg_payload (d # cs))"

text \<open>
  The telnet commands that carry no content: IAC with one of the verbs WILL (251),
  WONT (252), DO (253), DONT (254) and an option code; IAC with a byte below 250 (a
  command this program does not know); a subnegotiation IAC SB payload IAC SE.
\<close>

datatype telnet_cmd = Option_cmd byte byte | Other_cmd byte | Subneg_cmd "byte list"

fun encode :: "telnet_cmd \<Rightarrow> byte list" where
  "encode (Option_cmd verb opt) = [255, verb, opt]"
| "encode (Other_cmd x) = [255, x]"
| "encode (Subneg_cmd payload) = [255, 250] @ payload @ [255, 240]"

fun wf_cmd :: "telnet_cmd \<Rightarrow> bool" where
  "wf_cmd (Option_cmd verb opt) = (verb = 251 \<or> verb = 252 \<or> verb = 253 \<or> verb = 254)"
| "wf_cmd (Other_cmd x) = (x < 250)"
| "wf_cmd (Subneg_cmd payload) = subneg_payload payload"

text \<open>
  Counting what a session has sent: the login prompts (the first one is the end of the
  greeting \<open>hello0\<close>) and the messages \<^verbatim>\<open>Login incorrect\<close>.
\<close>

definition prompts :: "byte list list \<Rightarrow> nat" where
  "prompts ms = count_list ms hello0 + count_list ms login_prompt"

definition rejections :: "byte list list \<Rightarrow> nat" where
  "rejections ms = count_list ms login_incorrect"

text \<open>
  A client that completes attempts: each attempt is a username and a password, both
  non-empty runs of plain bytes that fit the array, each followed by a carriage return.
\<close>

definition good_line :: "byte list \<Rightarrow> bool" where
  "good_line l = (l \<noteq> [] \<and> (\<forall>c\<in>set l. plain c) \<and> length l < 256)"

fun attempts_input :: "(byte list \<times> byte list) list \<Rightarrow> recv_result list" where
  "attempts_input [] = []"
| "attempts_input ((l, p) # as) = map Byte (l @ [0x0D] @ p @ [0x0D]) @ attempts_input as"

fun good_attempts :: "(byte list \<times> byte list) list \<Rightarrow> bool" where
  "good_attempts [] = True"
| "good_attempts ((l, p) # as) = (good_line l \<and> good_line p \<and> good_attempts as)"

section \<open>Runs of plain bytes\<close>

lemma length_write_at: "length (write_at b k cs) = length b"
  by (induction cs arbitrary: b k) simp_all

lemma take_write_at:
  "k + length cs \<le> length b \<Longrightarrow> take (k + length cs) (write_at b k cs) = take k b @ cs"
proof (induction cs arbitrary: b k)
  case Nil
  then show ?case by simp
next
  case (Cons c cs)
  have "take (Suc k + length cs) (write_at (b[k := c]) (Suc k) cs) = take (Suc k) (b[k := c]) @ cs"
    using Cons.prems by (intro Cons.IH) simp
  moreover have "take (Suc k) (b[k := c]) = take k b @ [c]"
    using Cons.prems by (simp add: take_Suc_conv_app_nth)
  ultimately show ?case by simp
qed

lemma take_write_at_0:
  assumes "nat sz \<le> length b" and "int (length bs) < sz"
  shows "take (length bs) (write_at b 0 bs) = bs"
  using take_write_at [of 0 bs b] assms by simp

lemma nvt_loop_Byte:
  "nvt_loop sz ist (Byte c # rs) v =
     (if is_done (nvt_byte sz c v) then Some (finish rs (nvt_byte sz c v))
      else nvt_loop sz ist rs (nvt_byte sz c v))"
  by (simp add: Let_def)

lemma nvt_byte_plain:
  assumes "state v = 0 \<or> state v = 1" and "plain c" and "offset v + 1 < sz"
  shows "nvt_byte sz c v =
           v\<lparr>buf := (buf v)[nat (offset v) := c], offset := offset v + 1,
             sent := sent v @ (if state v = 0 then [echo c] else [])\<rparr>"
  using assms by (auto simp: nvt_byte_def plain_def append_byte_def Let_def)

lemma nvt_loop_plain_run:
  assumes "state v = 0 \<or> state v = 1" and "\<not> is_done v" and "\<forall>c\<in>set bs. plain c"
    and "0 \<le> offset v" and "offset v + int (length bs) < sz"
  shows "nvt_loop sz ist (map Byte bs @ rs) v =
           nvt_loop sz ist rs
             (v\<lparr>buf := write_at (buf v) (nat (offset v)) bs,
                offset := offset v + int (length bs),
                sent := sent v @ (if state v = 0 then map echo bs else [])\<rparr>)"
  using assms
proof (induction bs arbitrary: v)
  case Nil
  then show ?case by simp
next
  case (Cons c bs)
  let ?v = "v\<lparr>buf := (buf v)[nat (offset v) := c], offset := offset v + 1,
             sent := sent v @ (if state v = 0 then [echo c] else [])\<rparr>"
  have step: "nvt_byte sz c v = ?v"
    using Cons.prems by (intro nvt_byte_plain) auto
  have "nvt_loop sz ist (map Byte (c # bs) @ rs) v = nvt_loop sz ist (map Byte bs @ rs) ?v"
    using Cons.prems(2) by (simp add: step del: nvt_loop.simps add: nvt_loop_Byte)
  also have "\<dots> = nvt_loop sz ist rs
             (?v\<lparr>buf := write_at (buf ?v) (nat (offset ?v)) bs,
                offset := offset ?v + int (length bs),
                sent := sent ?v @ (if state ?v = 0 then map echo bs else [])\<rparr>)"
    using Cons.prems by (intro Cons.IH) auto
  also have "\<dots> = nvt_loop sz ist rs
             (v\<lparr>buf := write_at (buf v) (nat (offset v)) (c # bs),
                offset := offset v + int (length (c # bs)),
                sent := sent v @ (if state v = 0 then map echo (c # bs) else [])\<rparr>)"
  proof -
    have "nat (offset v + 1) = Suc (nat (offset v))"
      using Cons.prems(4) by simp
    then show ?thesis by (simp add: add.assoc)
  qed
  finally show ?case .
qed

lemma nvt_loop_CR:
  assumes "state v = 0 \<or> state v = 1"
  shows "nvt_loop sz ist (Byte 0x0D # rs) v = Some (finish rs (v\<lparr>is_done := True\<rparr>))"
  using assms by (auto simp: nvt_byte_def Let_def)

lemma write_at_snoc: "write_at b k (cs @ [c]) = (write_at b k cs)[k + length cs := c]"
  by (induction cs arbitrary: b k) simp_all

lemma nvt_byte_DEL:
  assumes "state v = 0 \<or> state v = 1"
  shows "nvt_byte sz 0x7F v =
           (if offset v = 0 then v
            else v\<lparr>offset := offset v - 1,
                   sent := sent v @ (if state v = 0 then [[0x08, 0x20, 0x08]] else [])\<rparr>)"
  using assms by (elim disjE) (simp_all add: nvt_byte_def Let_def)



section \<open>Bytes that do not complete the line, and telnet commands\<close>

lemma nvt_loop_feed:
  "nvt_feed sz bs v = Some w \<Longrightarrow> nvt_loop sz ist (map Byte bs @ rs) v = nvt_loop sz ist rs w"
proof (induction bs arbitrary: v)
  case Nil
  then show ?case by simp
next
  case (Cons c bs)
  then show ?case
    by (simp add: Let_def split: if_splits)
qed

lemma nvt_feed_append:
  "nvt_feed sz (as @ bs) v = (case nvt_feed sz as v of None \<Rightarrow> None | Some w \<Rightarrow> nvt_feed sz bs w)"
  by (induction as arbitrary: v) (simp_all add: Let_def)

lemma nvt_byte_subneg:
  assumes "state v = 20 \<or> state v = 21"
  shows "nvt_byte sz c v =
           v\<lparr>state := (if state v = 20 then (if c = 255 then 21 else 20)
                        else (if c = 240 then 0 else 20))\<rparr>"
  using assms by (elim disjE) (simp_all add: nvt_byte_def)

lemma nvt_feed_payload:
  assumes "subneg_payload p" and "state v = 20" and "\<not> is_done v"
  shows "nvt_feed sz p v = Some v"
  using assms
proof (induction p arbitrary: v rule: subneg_payload.induct)
  case 1
  then show ?case by simp
next
  case (2 c)
  then show ?case by (simp add: nvt_byte_subneg Let_def)
next
  case (3 c d cs)
  show ?case
  proof (cases "c = 255")
    case True
    have "nvt_feed sz cs v = Some v"
      using 3 True by simp
    then show ?thesis
      using 3 True by (simp add: nvt_byte_subneg Let_def)
  next
    case False
    have "nvt_feed sz (d # cs) v = Some v"
      using 3 False by simp
    moreover have "nvt_byte sz c v = v"
      using 3 False by (simp add: nvt_byte_subneg)
    ultimately show ?thesis
      using 3(5) by (simp only: nvt_feed.simps Let_def) simp
  qed
qed

lemma nvt_byte_IAC:
  assumes "state v = 0 \<or> state v = 1"
  shows "nvt_byte sz 255 v = v\<lparr>state := 2\<rparr>"
  using assms by (elim disjE) (simp_all add: nvt_byte_def)

lemma nvt_byte_command:
  assumes "state v = 2"
  shows "nvt_byte sz c v =
           (if c = 250 then v\<lparr>state := 20\<rparr>
            else if c = 251 then v\<lparr>state := 3\<rparr>
            else if c = 252 then v\<lparr>state := 4\<rparr>
            else if c = 253 then v\<lparr>state := 5\<rparr>
            else if c = 254 then v\<lparr>state := 6\<rparr>
            else if c = 255 then (append_byte sz 0xFF v v)\<lparr>state := 0\<rparr>
            else v\<lparr>state := 0\<rparr>)"
  using assms by (simp add: nvt_byte_def)

lemma nvt_byte_option:
  assumes "state v = 3 \<or> state v = 4 \<or> state v = 5 \<or> state v = 6"
  shows "nvt_byte sz c v = v\<lparr>state := 0\<rparr>"
  using assms by (elim disjE) (simp_all add: nvt_byte_def)

lemma nvt_feed_cmd:
  assumes "wf_cmd cmd" and "state v = 0 \<or> state v = 1" and "\<not> is_done v"
  shows "nvt_feed sz (encode cmd) v = Some (v\<lparr>state := 0\<rparr>)"
proof (cases cmd)
  case (Option_cmd verb opt)
  let ?i = "v\<lparr>state := 2\<rparr>"
  have a: "nvt_byte sz 255 v = ?i"
    using assms(2) by (rule nvt_byte_IAC)
  have "verb = 251 \<or> verb = 252 \<or> verb = 253 \<or> verb = 254"
    using assms(1) Option_cmd by simp
  then obtain s where s: "nvt_byte sz verb ?i = v\<lparr>state := s\<rparr>" "s = 3 \<or> s = 4 \<or> s = 5 \<or> s = 6"
    by (auto simp: nvt_byte_command)
  have c: "nvt_byte sz opt (v\<lparr>state := s\<rparr>) = v\<lparr>state := 0\<rparr>"
    using s(2) by (simp add: nvt_byte_option)
  show ?thesis
    using assms(3) by (simp add: Option_cmd a s(1) c)
next
  case (Other_cmd x)
  let ?i = "v\<lparr>state := 2\<rparr>"
  have a: "nvt_byte sz 255 v = ?i"
    using assms(2) by (rule nvt_byte_IAC)
  have "x < 250"
    using assms(1) Other_cmd by simp
  then have b: "nvt_byte sz x ?i = v\<lparr>state := 0\<rparr>"
    by (auto simp: nvt_byte_command)
  show ?thesis
    using assms(3) by (simp add: Other_cmd a b)
next
  case (Subneg_cmd p)
  let ?i = "v\<lparr>state := 2\<rparr>"
  let ?s = "v\<lparr>state := 20\<rparr>"
  have a: "nvt_feed sz [255, 250] v = Some ?s"
    using assms(3) nvt_byte_IAC [OF assms(2), of sz] by (simp add: nvt_byte_command)
  have b: "nvt_feed sz p ?s = Some ?s"
    using assms Subneg_cmd by (intro nvt_feed_payload) auto
  have c: "nvt_feed sz [255, 240] ?s = Some (v\<lparr>state := 0\<rparr>)"
    using assms(3) by (simp add: nvt_byte_subneg)
  have "nvt_feed sz ([255, 250] @ p @ [255, 240]) v = Some (v\<lparr>state := 0\<rparr>)"
    by (simp only: nvt_feed_append a b c option.simps)
  then show ?thesis
    by (simp only: Subneg_cmd encode.simps)
qed

section \<open>Content preservation\<close>

text \<open>
  Claim C1, as amended. Let a byte sequence contain none of \<open>0xFF\<close>, carriage return,
  line feed and \<open>0x00\<close>, and also none of \<open>0x7F\<close> (DEL), \<open>0x03\<close> (Ctrl-C) and \<open>0x04\<close>
  (Ctrl-D), and let it be shorter than \<^verbatim>\<open>sizeof_buf\<close>. When the sequence arrives followed
  by a carriage return, a call of the line reader that starts in state 0 or 1 returns
  the length of the sequence, the first bytes of the array are exactly the sequence, the
  state is unchanged, and the input after the carriage return is left for the next call.
\<close>

theorem content_preserved:
  assumes "in_state = 0 \<or> in_state = 1"
    and "\<forall>c\<in>set bs. c \<notin> {0xFF, 0x0D, 0x0A, 0x00} \<and> c \<notin> {0x7F, 0x03, 0x04}"
    and "int (length bs) < sizeof_buf"
    and "nat sizeof_buf \<le> length buf0"
    and "incoming fd = map Byte (bs @ [0x0D]) @ rest"
  shows "\<exists>r. recv_nvt_line fd buf0 sizeof_buf in_state = Some r
           \<and> ret r = int (length bs) \<and> line r = bs
           \<and> line_state r = in_state \<and> incoming (line_fd r) = rest"
proof -
  let ?v = "\<lparr>buf = buf0, offset = 0, state = in_state, is_done = False, sent = outgoing fd\<rparr>"
  let ?w = "?v\<lparr>buf := write_at (buf ?v) (nat (offset ?v)) bs,
               offset := offset ?v + int (length bs),
               sent := sent ?v @ (if state ?v = 0 then map echo bs else [])\<rparr>"
  have pl: "\<forall>c\<in>set bs. plain c"
    using assms(2) by (auto simp: plain_def)
  have "recv_nvt_line fd buf0 sizeof_buf in_state
          = nvt_loop sizeof_buf in_state (map Byte bs @ (Byte 0x0D # rest)) ?v"
    by (simp add: recv_nvt_line_def assms(5))
  also have "\<dots> = nvt_loop sizeof_buf in_state (Byte 0x0D # rest) ?w"
    using assms(1,3) pl by (intro nvt_loop_plain_run) auto
  also have "\<dots> = Some (finish rest (?w\<lparr>is_done := True\<rparr>))"
    using assms(1) by (intro nvt_loop_CR) auto
  finally have eq: "recv_nvt_line fd buf0 sizeof_buf in_state
                      = Some (finish rest (?w\<lparr>is_done := True\<rparr>))" .
  have "line (finish rest (?w\<lparr>is_done := True\<rparr>)) = bs"
    using take_write_at_0 [OF assms(4,3)] by (simp add: line_def finish_def)
  then show ?thesis
    using eq by (simp add: finish_def)
qed

theorem content_preserved_witness:
  "map_option (\<lambda>r. (ret r, line r, line_state r, incoming (line_fd r)))
     (recv_nvt_line \<lparr>incoming = map Byte (bytes ''root'' @ [0x0D]) @ [Byte 0x31], outgoing = []\<rparr>
        (replicate 8 0) 8 1)
   = Some (4, bytes ''root'', 1, [Byte 0x31])"
  using content_preserved [of 1 "bytes ''root''" 8 "replicate 8 0"
      "\<lparr>incoming = map Byte (bytes ''root'' @ [0x0D]) @ [Byte 0x31], outgoing = []\<rparr>" "[Byte 0x31]"]
  by (auto simp: bytes_def)

text \<open>
  The claim as it was stated fails for DEL: the sequence \<open>a b 0x7F\<close> contains none of the
  four excluded bytes, and the line returned for it is \<open>a\<close>.
\<close>

theorem content_verbatim_counterexample:
  "map_option line
     (recv_nvt_line \<lparr>incoming = map Byte ([0x61, 0x62, 0x7F] @ [0x0D]), outgoing = []\<rparr>
        (replicate 8 0) 8 0)
   = Some [0x61]"
  by code_simp

section \<open>Backspace\<close>

text \<open>
  Claim C8. In state 0 or 1 the byte \<open>0x7F\<close> takes the last byte off the content when
  there is one, and sends backspace, space, backspace to the client in state 0 only; on
  an empty buffer it changes nothing; the offset never becomes negative. A call that
  receives a non-empty run of plain bytes \<open>bs\<close>, then \<open>0x7F\<close>, then a carriage return,
  returns \<open>bs\<close> without its last byte (\<open>ab\<close> gives \<open>a\<close>).
\<close>

theorem backspace:
  assumes "in_state = 0 \<or> in_state = 1"
  shows "(\<forall>v. state v = in_state \<and> 0 < offset v \<longrightarrow>
            nvt_byte sizeof_buf 0x7F v =
              v\<lparr>offset := offset v - 1,
                sent := sent v @ (if in_state = 0 then [[0x08, 0x20, 0x08]] else [])\<rparr>)
       \<and> (\<forall>v. state v = in_state \<and> offset v = 0 \<longrightarrow> nvt_byte sizeof_buf 0x7F v = v)
       \<and> (\<forall>v. state v = in_state \<and> 0 \<le> offset v \<longrightarrow> 0 \<le> offset (nvt_byte sizeof_buf 0x7F v))
       \<and> (\<forall>bs buf0 fd rest.
             bs \<noteq> [] \<and> (\<forall>c\<in>set bs. plain c) \<and> int (length bs) < sizeof_buf
             \<and> nat sizeof_buf \<le> length buf0
             \<and> incoming fd = map Byte (bs @ [0x7F, 0x0D]) @ rest \<longrightarrow>
             (\<exists>r. recv_nvt_line fd buf0 sizeof_buf in_state = Some r
                \<and> ret r = int (length bs) - 1 \<and> line r = butlast bs
                \<and> outgoing (line_fd r) =
                    outgoing fd @ (if in_state = 0 then map echo bs @ [[0x08, 0x20, 0x08]] else [])))"
proof (intro conjI allI impI)
  fix v :: nvt
  assume "state v = in_state \<and> 0 < offset v"
  then show "nvt_byte sizeof_buf 0x7F v =
              v\<lparr>offset := offset v - 1,
                sent := sent v @ (if in_state = 0 then [[0x08, 0x20, 0x08]] else [])\<rparr>"
    using assms nvt_byte_DEL [of v sizeof_buf] by auto
next
  fix v :: nvt
  assume "state v = in_state \<and> offset v = 0"
  then show "nvt_byte sizeof_buf 0x7F v = v"
    using assms nvt_byte_DEL [of v sizeof_buf] by auto
next
  fix v :: nvt
  assume "state v = in_state \<and> 0 \<le> offset v"
  then show "0 \<le> offset (nvt_byte sizeof_buf 0x7F v)"
    using assms nvt_byte_DEL [of v sizeof_buf] by auto
next
  fix bs buf0 :: "byte list" and fd :: socket and rest :: "recv_result list"
  assume h: "bs \<noteq> [] \<and> (\<forall>c\<in>set bs. plain c) \<and> int (length bs) < sizeof_buf
             \<and> nat sizeof_buf \<le> length buf0
             \<and> incoming fd = map Byte (bs @ [0x7F, 0x0D]) @ rest"
  let ?v = "\<lparr>buf = buf0, offset = 0, state = in_state, is_done = False, sent = outgoing fd\<rparr>"
  let ?w = "?v\<lparr>buf := write_at (buf ?v) (nat (offset ?v)) bs,
               offset := offset ?v + int (length bs),
               sent := sent ?v @ (if state ?v = 0 then map echo bs else [])\<rparr>"
  let ?x = "?w\<lparr>offset := offset ?w - 1,
               sent := sent ?w @ (if state ?w = 0 then [[0x08, 0x20, 0x08]] else [])\<rparr>"
  have len: "0 < length bs"
    using h by simp
  have "recv_nvt_line fd buf0 sizeof_buf in_state
          = nvt_loop sizeof_buf in_state (map Byte bs @ (Byte 0x7F # Byte 0x0D # rest)) ?v"
    using h by (simp add: recv_nvt_line_def)
  also have "\<dots> = nvt_loop sizeof_buf in_state (Byte 0x7F # Byte 0x0D # rest) ?w"
    using assms h by (intro nvt_loop_plain_run) auto
  also have "\<dots> = nvt_loop sizeof_buf in_state (Byte 0x0D # rest) ?x"
  proof -
    have "nvt_byte sizeof_buf 0x7F ?w = ?x"
      using assms len nvt_byte_DEL [of ?w sizeof_buf] by auto
    then show ?thesis
      by (simp only: nvt_loop_Byte) simp
  qed
  also have "\<dots> = Some (finish rest (?x\<lparr>is_done := True\<rparr>))"
    using assms by (intro nvt_loop_CR) auto
  finally have eq: "recv_nvt_line fd buf0 sizeof_buf in_state
                      = Some (finish rest (?x\<lparr>is_done := True\<rparr>))" .
  have tk: "take (length bs) (write_at buf0 0 bs) = bs"
    using h by (intro take_write_at_0 [of sizeof_buf]) auto
  have "length bs \<le> length (write_at buf0 0 bs)"
    using h by (auto simp: length_write_at)
  then have "butlast (take (length bs) (write_at buf0 0 bs))
               = take (length bs - 1) (write_at buf0 0 bs)"
    by (rule butlast_take)
  then have "take (length bs - 1) (write_at buf0 0 bs) = butlast bs"
    by (simp only: tk)
  then have "line (finish rest (?x\<lparr>is_done := True\<rparr>)) = butlast bs"
    using len by (simp add: line_def finish_def nat_diff_distrib')
  then show "\<exists>r. recv_nvt_line fd buf0 sizeof_buf in_state = Some r
                \<and> ret r = int (length bs) - 1 \<and> line r = butlast bs
                \<and> outgoing (line_fd r) =
                    outgoing fd @ (if in_state = 0 then map echo bs @ [[0x08, 0x20, 0x08]] else [])"
    using eq by (simp add: finish_def)
qed

theorem backspace_witness:
  "map_option (\<lambda>r. (ret r, line r, outgoing (line_fd r)))
     (recv_nvt_line \<lparr>incoming = map Byte (bytes ''ab'' @ [0x7F, 0x0D]), outgoing = []\<rparr>
        [0, 0, 0, 0] 4 0)
   = Some (1, bytes ''a'', [[0x61], [0x62], [0x08, 0x20, 0x08]])"
proof -
  have "\<exists>r. recv_nvt_line \<lparr>incoming = map Byte (bytes ''ab'' @ [0x7F, 0x0D]) @ [], outgoing = []\<rparr>
              [0, 0, 0, 0] 4 0 = Some r
          \<and> ret r = int (length (bytes ''ab'')) - 1 \<and> line r = butlast (bytes ''ab'')
          \<and> outgoing (line_fd r) =
                outgoing \<lparr>incoming = map Byte (bytes ''ab'' @ [0x7F, 0x0D]) @ [], outgoing = []\<rparr>
                @ (if (0::int) = 0 then map echo (bytes ''ab'') @ [[0x08, 0x20, 0x08]] else [])"
    using backspace [of 0 4, THEN conjunct2, THEN conjunct2, THEN conjunct2, rule_format,
        of "bytes ''ab''" "[0, 0, 0, 0]"
           "\<lparr>incoming = map Byte (bytes ''ab'' @ [0x7F, 0x0D]) @ [], outgoing = []\<rparr>" "[]"]
    by (simp add: bytes_def plain_def)
  then show ?thesis
    by (auto simp: bytes_def echo_def)
qed

section \<open>Ctrl-C and Ctrl-D\<close>

lemma nvt_byte_ctrl:
  assumes "c = 3 \<or> c = 4" and "state v = 0 \<or> state v = 1"
  shows "nvt_byte sz c v =
           (if offset v + 1 < sz
            then v\<lparr>buf := (buf v)[nat (offset v) := c], offset := offset v + 1,
                   sent := sent v @ (if state v = 0 then [echo c] else []), is_done := True\<rparr>
            else v\<lparr>sent := sent v @ (if state v = 0 then [echo c] else []), is_done := True\<rparr>)"
  using assms by (elim disjE) (simp_all add: nvt_byte_def append_byte_def Let_def)

text \<open>
  Claim C10. In state 0 or 1 the byte \<open>0x03\<close> or \<open>0x04\<close> is stored in the array when
  \<^verbatim>\<open>offset + 1 < sizeof_buf\<close> (and not stored otherwise), and in both cases \<^verbatim>\<open>done\<close> is
  set. A call that receives plain bytes \<open>bs\<close> and then such a byte returns the line
  \<open>bs\<close> followed by the control byte itself, and leaves what follows in the stream.
\<close>

theorem ctrl_c_ctrl_d:
  assumes "c = 3 \<or> c = 4" and "in_state = 0 \<or> in_state = 1"
  shows "(\<forall>v. state v = in_state \<and> offset v + 1 < sizeof_buf \<longrightarrow>
            nvt_byte sizeof_buf c v =
              v\<lparr>buf := (buf v)[nat (offset v) := c], offset := offset v + 1,
                sent := sent v @ (if in_state = 0 then [echo c] else []), is_done := True\<rparr>)
       \<and> (\<forall>v. state v = in_state \<and> sizeof_buf \<le> offset v + 1 \<longrightarrow>
            nvt_byte sizeof_buf c v =
              v\<lparr>sent := sent v @ (if in_state = 0 then [echo c] else []), is_done := True\<rparr>)
       \<and> (\<forall>bs buf0 fd rest.
             (\<forall>b\<in>set bs. plain b) \<and> int (length bs) + 1 < sizeof_buf
             \<and> nat sizeof_buf \<le> length buf0
             \<and> incoming fd = map Byte (bs @ [c]) @ rest \<longrightarrow>
             (\<exists>r. recv_nvt_line fd buf0 sizeof_buf in_state = Some r
                \<and> ret r = int (length bs) + 1 \<and> line r = bs @ [c]
                \<and> line_state r = in_state \<and> incoming (line_fd r) = rest))"
proof (intro conjI allI impI)
  fix v :: nvt
  assume "state v = in_state \<and> offset v + 1 < sizeof_buf"
  then show "nvt_byte sizeof_buf c v =
              v\<lparr>buf := (buf v)[nat (offset v) := c], offset := offset v + 1,
                sent := sent v @ (if in_state = 0 then [echo c] else []), is_done := True\<rparr>"
    using assms nvt_byte_ctrl [of c v sizeof_buf] by auto
next
  fix v :: nvt
  assume "state v = in_state \<and> sizeof_buf \<le> offset v + 1"
  then show "nvt_byte sizeof_buf c v =
              v\<lparr>sent := sent v @ (if in_state = 0 then [echo c] else []), is_done := True\<rparr>"
    using assms nvt_byte_ctrl [of c v sizeof_buf] by auto
next
  fix bs buf0 :: "byte list" and fd :: socket and rest :: "recv_result list"
  assume h: "(\<forall>b\<in>set bs. plain b) \<and> int (length bs) + 1 < sizeof_buf
             \<and> nat sizeof_buf \<le> length buf0
             \<and> incoming fd = map Byte (bs @ [c]) @ rest"
  let ?v = "\<lparr>buf = buf0, offset = 0, state = in_state, is_done = False, sent = outgoing fd\<rparr>"
  let ?w = "?v\<lparr>buf := write_at (buf ?v) (nat (offset ?v)) bs,
               offset := offset ?v + int (length bs),
               sent := sent ?v @ (if state ?v = 0 then map echo bs else [])\<rparr>"
  let ?x = "?w\<lparr>buf := (buf ?w)[nat (offset ?w) := c], offset := offset ?w + 1,
               sent := sent ?w @ (if state ?w = 0 then [echo c] else []), is_done := True\<rparr>"
  have "recv_nvt_line fd buf0 sizeof_buf in_state
          = nvt_loop sizeof_buf in_state (map Byte bs @ (Byte c # rest)) ?v"
    using h by (simp add: recv_nvt_line_def)
  also have "\<dots> = nvt_loop sizeof_buf in_state (Byte c # rest) ?w"
    using assms h by (intro nvt_loop_plain_run) auto
  also have "\<dots> = Some (finish rest ?x)"
  proof -
    have "nvt_byte sizeof_buf c ?w = ?x"
      using assms h nvt_byte_ctrl [of c ?w sizeof_buf] by auto
    then show ?thesis
      by (simp only: nvt_loop_Byte) simp
  qed
  finally have eq: "recv_nvt_line fd buf0 sizeof_buf in_state = Some (finish rest ?x)" .
  have "length bs + length [c] \<le> length buf0"
    using h by auto
  then have "take (0 + length (bs @ [c])) (write_at buf0 0 (bs @ [c])) = take 0 buf0 @ (bs @ [c])"
    by (intro take_write_at) simp
  then have "take (Suc (length bs)) ((write_at buf0 0 bs)[length bs := c]) = bs @ [c]"
    by (simp add: write_at_snoc)
  then have "line (finish rest ?x) = bs @ [c]"
    by (simp add: line_def finish_def nat_add_distrib)
  then show "\<exists>r. recv_nvt_line fd buf0 sizeof_buf in_state = Some r
                \<and> ret r = int (length bs) + 1 \<and> line r = bs @ [c]
                \<and> line_state r = in_state \<and> incoming (line_fd r) = rest"
    using eq by (simp add: finish_def)
qed

theorem ctrl_c_ctrl_d_witness:
  "map_option (\<lambda>r. (ret r, line r, line_state r, incoming (line_fd r)))
     (recv_nvt_line \<lparr>incoming = map Byte (bytes ''ab'' @ [0x03]) @ [Byte 0x63, Byte 0x0D], outgoing = []\<rparr>
        [0, 0, 0, 0] 4 1)
   = Some (3, bytes ''ab'' @ [0x03], 1, [Byte 0x63, Byte 0x0D])"
proof -
  have "\<exists>r. recv_nvt_line
               \<lparr>incoming = map Byte (bytes ''ab'' @ [0x03]) @ [Byte 0x63, Byte 0x0D], outgoing = []\<rparr>
               [0, 0, 0, 0] 4 1 = Some r
          \<and> ret r = int (length (bytes ''ab'')) + 1 \<and> line r = bytes ''ab'' @ [0x03]
          \<and> line_state r = 1 \<and> incoming (line_fd r) = [Byte 0x63, Byte 0x0D]"
    using ctrl_c_ctrl_d [of 3 1 4, THEN conjunct2, THEN conjunct2, rule_format,
        of "bytes ''ab''" "[0, 0, 0, 0]"
           "\<lparr>incoming = map Byte (bytes ''ab'' @ [0x03]) @ [Byte 0x63, Byte 0x0D], outgoing = []\<rparr>"
           "[Byte 0x63, Byte 0x0D]"]
    by (simp add: bytes_def plain_def)
  then show ?thesis
    by (auto simp: bytes_def)
qed

section \<open>Telnet commands inside a line\<close>

lemma line_with_command:
  assumes cmd: "wf_cmd cmd" and st: "in_state = 0 \<or> in_state = 1"
    and pre: "\<forall>b\<in>set pre. plain b" and post: "\<forall>b\<in>set post. plain b"
    and len: "int (length pre) + int (length post) < sz"
    and inp: "incoming fd = map Byte (pre @ encode cmd @ post @ [0x0D]) @ rest"
  shows "recv_nvt_line fd buf0 sz in_state =
           Some \<lparr>ret = int (length pre) + int (length post),
                 line_buf = write_at (write_at buf0 0 pre) (length pre) post,
                 line_state = 0,
                 line_fd = \<lparr>incoming = rest,
                            outgoing = outgoing fd @ (if in_state = 0 then map echo pre else [])
                                         @ map echo post\<rparr>\<rparr>"
proof -
  let ?v = "\<lparr>buf = buf0, offset = 0, state = in_state, is_done = False, sent = outgoing fd\<rparr>"
  let ?w = "?v\<lparr>buf := write_at buf0 0 pre, offset := int (length pre),
               sent := outgoing fd @ (if in_state = 0 then map echo pre else [])\<rparr>"
  let ?x = "?w\<lparr>state := 0\<rparr>"
  let ?y = "?x\<lparr>buf := write_at (write_at buf0 0 pre) (length pre) post,
               offset := int (length pre) + int (length post),
               sent := outgoing fd @ (if in_state = 0 then map echo pre else []) @ map echo post\<rparr>"
  have "recv_nvt_line fd buf0 sz in_state
          = nvt_loop sz in_state (map Byte pre @ (map Byte (encode cmd) @ (map Byte post @ (Byte 0x0D # rest)))) ?v"
    by (simp add: recv_nvt_line_def inp)
  also have "\<dots> = nvt_loop sz in_state (map Byte (encode cmd) @ (map Byte post @ (Byte 0x0D # rest))) ?w"
  proof -
    have "nvt_loop sz in_state (map Byte pre @ (map Byte (encode cmd) @ (map Byte post @ (Byte 0x0D # rest)))) ?v
          = nvt_loop sz in_state (map Byte (encode cmd) @ (map Byte post @ (Byte 0x0D # rest)))
              (?v\<lparr>buf := write_at (buf ?v) (nat (offset ?v)) pre,
                  offset := offset ?v + int (length pre),
                  sent := sent ?v @ (if state ?v = 0 then map echo pre else [])\<rparr>)"
      using st pre len by (intro nvt_loop_plain_run) auto
    then show ?thesis by simp
  qed
  also have "\<dots> = nvt_loop sz in_state (map Byte post @ (Byte 0x0D # rest)) ?x"
  proof -
    have "nvt_feed sz (encode cmd) ?w = Some (?w\<lparr>state := 0\<rparr>)"
      using cmd st by (intro nvt_feed_cmd) auto
    then show ?thesis
      by (rule nvt_loop_feed)
  qed
  also have "\<dots> = nvt_loop sz in_state (Byte 0x0D # rest) ?y"
  proof -
    have "nvt_loop sz in_state (map Byte post @ (Byte 0x0D # rest)) ?x
          = nvt_loop sz in_state (Byte 0x0D # rest)
              (?x\<lparr>buf := write_at (buf ?x) (nat (offset ?x)) post,
                  offset := offset ?x + int (length post),
                  sent := sent ?x @ (if state ?x = 0 then map echo post else [])\<rparr>)"
      using post len by (intro nvt_loop_plain_run) auto
    then show ?thesis by simp
  qed
  also have "\<dots> = Some (finish rest (?y\<lparr>is_done := True\<rparr>))"
    by (intro nvt_loop_CR) simp
  finally show ?thesis
    by (simp add: finish_def)
qed

lemma take_write_at_twice:
  assumes "length pre + length post \<le> length buf0"
  shows "take (length pre + length post) (write_at (write_at buf0 0 pre) (length pre) post)
           = pre @ post"
proof -
  have "take (0 + length pre) (write_at buf0 0 pre) = take 0 buf0 @ pre"
    using assms by (intro take_write_at) simp
  moreover have "take (length pre + length post) (write_at (write_at buf0 0 pre) (length pre) post)
                   = take (length pre) (write_at buf0 0 pre) @ post"
    using assms by (intro take_write_at) (simp add: length_write_at)
  ultimately show ?thesis by simp
qed

text \<open>
  Claim C4. A well-formed subnegotiation block IAC SB payload IAC SE that arrives in
  state 0 or 1 is consumed without any change to the array, the offset or the messages
  sent: only the state changes, to 0. In the subnegotiation states 20 and 21 no byte
  changes anything but the state, so this covers a payload with \<open>0xFF\<close> bytes that are
  not followed by SE. A line that carries such a block between the plain bytes \<open>pre\<close>
  and \<open>post\<close> is returned as \<open>pre\<close> followed by \<open>post\<close>: no byte of the payload is in
  the line.
\<close>

theorem subnegotiation_absorbed:
  assumes "subneg_payload payload"
  shows "(\<forall>v. (state v = 0 \<or> state v = 1) \<and> \<not> is_done v \<longrightarrow>
            nvt_feed sizeof_buf ([255, 250] @ payload @ [255, 240]) v = Some (v\<lparr>state := 0\<rparr>))
       \<and> (\<forall>v c. state v = 20 \<or> state v = 21 \<longrightarrow>
            (nvt_byte sizeof_buf c v)\<lparr>state := state v\<rparr> = v)
       \<and> (\<forall>in_state pre post buf0 fd rest.
             (in_state = 0 \<or> in_state = 1)
             \<and> (\<forall>b\<in>set pre. plain b) \<and> (\<forall>b\<in>set post. plain b)
             \<and> int (length pre) + int (length post) < sizeof_buf
             \<and> nat sizeof_buf \<le> length buf0
             \<and> incoming fd = map Byte (pre @ [255, 250] @ payload @ [255, 240] @ post @ [0x0D]) @ rest
             \<longrightarrow>
             (\<exists>r. recv_nvt_line fd buf0 sizeof_buf in_state = Some r
                \<and> ret r = int (length pre) + int (length post) \<and> line r = pre @ post
                \<and> incoming (line_fd r) = rest))"
proof (intro conjI allI impI)
  fix v :: nvt
  assume "(state v = 0 \<or> state v = 1) \<and> \<not> is_done v"
  then have "nvt_feed sizeof_buf (encode (Subneg_cmd payload)) v = Some (v\<lparr>state := 0\<rparr>)"
    using assms by (intro nvt_feed_cmd) auto
  then show "nvt_feed sizeof_buf ([255, 250] @ payload @ [255, 240]) v = Some (v\<lparr>state := 0\<rparr>)"
    by (simp only: encode.simps)
next
  fix v :: nvt and c :: byte
  assume "state v = 20 \<or> state v = 21"
  then show "(nvt_byte sizeof_buf c v)\<lparr>state := state v\<rparr> = v"
    by (simp add: nvt_byte_subneg)
next
  fix in_state :: int and pre post buf0 :: "byte list" and fd :: socket
    and rest :: "recv_result list"
  assume h: "(in_state = 0 \<or> in_state = 1)
             \<and> (\<forall>b\<in>set pre. plain b) \<and> (\<forall>b\<in>set post. plain b)
             \<and> int (length pre) + int (length post) < sizeof_buf
             \<and> nat sizeof_buf \<le> length buf0
             \<and> incoming fd = map Byte (pre @ [255, 250] @ payload @ [255, 240] @ post @ [0x0D]) @ rest"
  have inp: "incoming fd = map Byte (pre @ encode (Subneg_cmd payload) @ post @ [0x0D]) @ rest"
    using h by simp
  have wf: "wf_cmd (Subneg_cmd payload)"
    using assms by simp
  have eq: "recv_nvt_line fd buf0 sizeof_buf in_state =
           Some \<lparr>ret = int (length pre) + int (length post),
                 line_buf = write_at (write_at buf0 0 pre) (length pre) post,
                 line_state = 0,
                 line_fd = \<lparr>incoming = rest,
                            outgoing = outgoing fd @ (if in_state = 0 then map echo pre else [])
                                         @ map echo post\<rparr>\<rparr>"
    using h by (intro line_with_command [OF wf _ _ _ _ inp]) auto
  have "length pre + length post \<le> length buf0"
    using h by auto
  then have "take (length pre + length post) (write_at (write_at buf0 0 pre) (length pre) post)
           = pre @ post"
    by (rule take_write_at_twice)
  then show "\<exists>r. recv_nvt_line fd buf0 sizeof_buf in_state = Some r
                \<and> ret r = int (length pre) + int (length post) \<and> line r = pre @ post
                \<and> incoming (line_fd r) = rest"
    by (simp add: eq line_def nat_add_distrib)
qed

theorem subnegotiation_absorbed_witness:
  "map_option (\<lambda>r. (ret r, line r))
     (recv_nvt_line
        \<lparr>incoming = map Byte (bytes ''ab'' @ [255, 250] @ [0x18, 0xFF, 0x01, 0x78] @ [255, 240]
                                 @ bytes ''cd'' @ [0x0D]) @ [],
         outgoing = []\<rparr>
        [0, 0, 0, 0, 0, 0, 0, 0] 8 0)
   = Some (4, bytes ''abcd'')"
proof -
  have "\<exists>r. recv_nvt_line
               \<lparr>incoming = map Byte (bytes ''ab'' @ [255, 250] @ [0x18, 0xFF, 0x01, 0x78] @ [255, 240]
                                        @ bytes ''cd'' @ [0x0D]) @ [],
                outgoing = []\<rparr>
               [0, 0, 0, 0, 0, 0, 0, 0] 8 0 = Some r
          \<and> ret r = int (length (bytes ''ab'')) + int (length (bytes ''cd''))
          \<and> line r = bytes ''ab'' @ bytes ''cd''
          \<and> incoming (line_fd r) = []"
    using subnegotiation_absorbed [of "[0x18, 0xFF, 0x01, 0x78]" 8,
        THEN conjunct2, THEN conjunct2, rule_format,
        of 0 "bytes ''ab''" "bytes ''cd''" "[0, 0, 0, 0, 0, 0, 0, 0]"
           "\<lparr>incoming = map Byte (bytes ''ab'' @ [255, 250] @ [0x18, 0xFF, 0x01, 0x78] @ [255, 240]
                                    @ bytes ''cd'' @ [0x0D]) @ [],
            outgoing = []\<rparr>" "[]"]
    by (simp add: bytes_def plain_def)
  then show ?thesis
    by (auto simp: bytes_def)
qed

lemma write_at_append:
  "write_at b k (xs @ ys) = write_at (write_at b k xs) (k + length xs) ys"
  by (induction xs arbitrary: b k) simp_all

lemma echo_caret: "echo c = (if c \<le> 26 then [0x5E, c + 0x40] else [c])"
  by (simp add: echo_def)

lemma nvt_feed_escaped_IAC:
  assumes "state v = 0 \<or> state v = 1" and "\<not> is_done v" and "offset v + 1 < sz"
  shows "nvt_feed sz [255, 255] v =
           Some (v\<lparr>buf := (buf v)[nat (offset v) := 255], offset := offset v + 1, state := 0\<rparr>)"
proof -
  have a: "nvt_byte sz 255 v = v\<lparr>state := 2\<rparr>"
    using assms(1) by (rule nvt_byte_IAC)
  have b: "nvt_byte sz 255 (v\<lparr>state := 2\<rparr>) =
             v\<lparr>buf := (buf v)[nat (offset v) := 255], offset := offset v + 1, state := 0\<rparr>"
    using assms(3) by (simp add: nvt_byte_command append_byte_def)
  show ?thesis
    using assms(2) by (simp add: a b)
qed

lemma line_with_command_and_escape:
  assumes cmd: "wf_cmd cmd" and st: "in_state = 0 \<or> in_state = 1"
    and pre: "\<forall>b\<in>set pre. plain b" and mid: "\<forall>b\<in>set mid. plain b"
    and post: "\<forall>b\<in>set post. plain b"
    and len: "int (length pre) + int (length mid) + 1 + int (length post) < sz"
    and inp: "incoming fd = map Byte (pre @ encode cmd @ mid @ [255, 255] @ post @ [0x0D]) @ rest"
  shows "recv_nvt_line fd buf0 sz in_state =
           Some \<lparr>ret = int (length pre) + int (length mid) + 1 + int (length post),
                 line_buf = write_at buf0 0 (pre @ mid @ [255] @ post),
                 line_state = 0,
                 line_fd = \<lparr>incoming = rest,
                            outgoing = outgoing fd @ (if in_state = 0 then map echo pre else [])
                                         @ map echo mid @ map echo post\<rparr>\<rparr>"
proof -
  let ?k1 = "length pre"
  let ?k2 = "length pre + length mid"
  let ?b1 = "write_at buf0 0 pre"
  let ?b2 = "write_at ?b1 ?k1 mid"
  let ?b3 = "?b2[?k2 := 255]"
  let ?b4 = "write_at ?b3 (Suc ?k2) post"
  let ?s1 = "outgoing fd @ (if in_state = 0 then map echo pre else [])"
  let ?v = "\<lparr>buf = buf0, offset = 0, state = in_state, is_done = False, sent = outgoing fd\<rparr>"
  let ?w = "\<lparr>buf = ?b1, offset = int ?k1, state = in_state, is_done = False, sent = ?s1\<rparr>"
  let ?x = "\<lparr>buf = ?b1, offset = int ?k1, state = 0, is_done = False, sent = ?s1\<rparr>"
  let ?y = "\<lparr>buf = ?b2, offset = int ?k2, state = 0, is_done = False, sent = ?s1 @ map echo mid\<rparr>"
  let ?z = "\<lparr>buf = ?b3, offset = int ?k2 + 1, state = 0, is_done = False,
             sent = ?s1 @ map echo mid\<rparr>"
  let ?u = "\<lparr>buf = ?b4, offset = int ?k2 + 1 + int (length post), state = 0, is_done = False,
             sent = ?s1 @ map echo mid @ map echo post\<rparr>"
  let ?r4 = "Byte 0x0D # rest"
  let ?r3 = "map Byte post @ ?r4"
  let ?r2 = "map Byte [255, 255] @ ?r3"
  let ?r1 = "map Byte mid @ ?r2"
  let ?r0 = "map Byte (encode cmd) @ ?r1"
  have "recv_nvt_line fd buf0 sz in_state = nvt_loop sz in_state (map Byte pre @ ?r0) ?v"
    by (simp add: recv_nvt_line_def inp)
  also have "\<dots> = nvt_loop sz in_state ?r0 ?w"
  proof -
    have "nvt_loop sz in_state (map Byte pre @ ?r0) ?v
          = nvt_loop sz in_state ?r0
              (?v\<lparr>buf := write_at (buf ?v) (nat (offset ?v)) pre,
                  offset := offset ?v + int (length pre),
                  sent := sent ?v @ (if state ?v = 0 then map echo pre else [])\<rparr>)"
      using st pre len by (intro nvt_loop_plain_run) auto
    then show ?thesis by simp
  qed
  also have "\<dots> = nvt_loop sz in_state ?r1 ?x"
  proof -
    have "nvt_feed sz (encode cmd) ?w = Some (?w\<lparr>state := 0\<rparr>)"
      using cmd st by (intro nvt_feed_cmd) auto
    then have "nvt_loop sz in_state ?r0 ?w = nvt_loop sz in_state ?r1 (?w\<lparr>state := 0\<rparr>)"
      by (rule nvt_loop_feed)
    then show ?thesis by simp
  qed
  also have "\<dots> = nvt_loop sz in_state ?r2 ?y"
  proof -
    have "nvt_loop sz in_state ?r1 ?x
          = nvt_loop sz in_state ?r2
              (?x\<lparr>buf := write_at (buf ?x) (nat (offset ?x)) mid,
                  offset := offset ?x + int (length mid),
                  sent := sent ?x @ (if state ?x = 0 then map echo mid else [])\<rparr>)"
      using mid len by (intro nvt_loop_plain_run) auto
    then show ?thesis by simp
  qed
  also have "\<dots> = nvt_loop sz in_state ?r3 ?z"
  proof -
    have "nvt_feed sz [255, 255] ?y =
            Some (?y\<lparr>buf := (buf ?y)[nat (offset ?y) := 255], offset := offset ?y + 1,
                     state := 0\<rparr>)"
      using len by (intro nvt_feed_escaped_IAC) auto
    moreover have "nat (int ?k2) = ?k2"
      by simp
    ultimately have "nvt_feed sz [255, 255] ?y = Some ?z"
      by (simp del: nvt_feed.simps)
    then show ?thesis
      by (rule nvt_loop_feed)
  qed
  also have "\<dots> = nvt_loop sz in_state ?r4 ?u"
  proof -
    have "nvt_loop sz in_state ?r3 ?z
          = nvt_loop sz in_state ?r4
              (?z\<lparr>buf := write_at (buf ?z) (nat (offset ?z)) post,
                  offset := offset ?z + int (length post),
                  sent := sent ?z @ (if state ?z = 0 then map echo post else [])\<rparr>)"
      using post len by (intro nvt_loop_plain_run) auto
    moreover have "nat (int ?k2 + 1) = Suc ?k2"
      by simp
    ultimately show ?thesis by simp
  qed
  also have "\<dots> = Some (finish rest (?u\<lparr>is_done := True\<rparr>))"
    by (intro nvt_loop_CR) simp
  finally have eq: "recv_nvt_line fd buf0 sz in_state = Some (finish rest (?u\<lparr>is_done := True\<rparr>))" .
  have "write_at buf0 0 (pre @ mid @ [255] @ post) = ?b4"
    by (simp add: write_at_append)
  then show ?thesis
    using eq by (simp add: finish_def)
qed

text \<open>
  Claim C9, as amended. Every exit from a negotiation state goes to state 0: the option
  byte after WILL, WONT, DO or DONT (states 3 to 6); in state 2 every byte other than SB
  and the four verbs, the escaped IAC included; SE in state 21. No byte takes the reader
  into state 1 from another state. In state 0 every byte that the Normal branch appends
  is echoed, a byte up to 26 as a caret and the letter, any other byte as it is. So when
  a telnet command arrives during a read that began in state 1 (the password), the
  ordinary content bytes that follow it in that read are all echoed to the client, and
  the call ends in state 0. The one content byte that is not echoed is the \<open>0xFF\<close> of an
  escaped IAC IAC: it is stored in the line and nothing is sent for it.
\<close>

theorem negotiation_exits_to_echo:
  "(\<forall>v c. state v = 3 \<or> state v = 4 \<or> state v = 5 \<or> state v = 6 \<longrightarrow>
       nvt_byte sizeof_buf c v = v\<lparr>state := 0\<rparr>)
   \<and> (\<forall>v c. state v = 2 \<and> c \<noteq> 250 \<and> c \<noteq> 251 \<and> c \<noteq> 252 \<and> c \<noteq> 253 \<and> c \<noteq> 254 \<longrightarrow>
       state (nvt_byte sizeof_buf c v) = 0)
   \<and> (\<forall>v. state v = 21 \<longrightarrow> nvt_byte sizeof_buf 240 v = v\<lparr>state := 0\<rparr>)
   \<and> (\<forall>v c. state (nvt_byte sizeof_buf c v) = 1 \<longrightarrow> state v = 1)
   \<and> (\<forall>v c. state v = 0 \<and> c \<noteq> 0xFF \<and> c \<noteq> 0 \<and> c \<noteq> 0x0A \<and> c \<noteq> 0x0D \<and> c \<noteq> 0x7F \<longrightarrow>
       sent (nvt_byte sizeof_buf c v)
         = sent v @ [if c \<le> 26 then [0x5E, c + 0x40] else [c]])
   \<and> (\<forall>v. state v = 2 \<longrightarrow>
       nvt_byte sizeof_buf 255 v =
         (if offset v + 1 < sizeof_buf
          then v\<lparr>buf := (buf v)[nat (offset v) := 255], offset := offset v + 1, state := 0\<rparr>
          else v\<lparr>state := 0\<rparr>))
   \<and> (\<forall>cmd pre post buf0 fd rest.
         wf_cmd cmd \<and> (\<forall>b\<in>set pre. plain b) \<and> (\<forall>b\<in>set post. plain b)
         \<and> int (length pre) + int (length post) < sizeof_buf
         \<and> nat sizeof_buf \<le> length buf0
         \<and> incoming fd = map Byte (pre @ encode cmd @ post @ [0x0D]) @ rest
         \<longrightarrow>
         (\<exists>r. recv_nvt_line fd buf0 sizeof_buf 1 = Some r
            \<and> line r = pre @ post \<and> line_state r = 0
            \<and> outgoing (line_fd r)
                = outgoing fd @ map (\<lambda>c. if c \<le> 26 then [0x5E, c + 0x40] else [c]) post))
   \<and> (\<forall>cmd pre mid post buf0 fd rest.
         wf_cmd cmd \<and> (\<forall>b\<in>set pre. plain b) \<and> (\<forall>b\<in>set mid. plain b)
         \<and> (\<forall>b\<in>set post. plain b)
         \<and> int (length pre) + int (length mid) + 1 + int (length post) < sizeof_buf
         \<and> nat sizeof_buf \<le> length buf0
         \<and> incoming fd = map Byte (pre @ encode cmd @ mid @ [255, 255] @ post @ [0x0D]) @ rest
         \<longrightarrow>
         (\<exists>r. recv_nvt_line fd buf0 sizeof_buf 1 = Some r
            \<and> line r = pre @ mid @ [255] @ post \<and> line_state r = 0
            \<and> outgoing (line_fd r)
                = outgoing fd
                  @ map (\<lambda>c. if c \<le> 26 then [0x5E, c + 0x40] else [c]) (mid @ post)))"
proof -
  have ech: "map (\<lambda>c. if c \<le> 26 then [0x5E, c + 0x40] else [c]) bs = map echo bs"
    for bs :: "byte list"
    by (simp add: echo_caret)
  have A: "\<forall>v c. state v = 3 \<or> state v = 4 \<or> state v = 5 \<or> state v = 6 \<longrightarrow>
       nvt_byte sizeof_buf c v = v\<lparr>state := 0\<rparr>"
    by (intro allI impI) (rule nvt_byte_option)
  have B: "\<forall>v c. state v = 2 \<and> c \<noteq> 250 \<and> c \<noteq> 251 \<and> c \<noteq> 252 \<and> c \<noteq> 253 \<and> c \<noteq> 254 \<longrightarrow>
       state (nvt_byte sizeof_buf c v) = 0"
    by (simp add: nvt_byte_command)
  have C: "\<forall>v. state v = 21 \<longrightarrow> nvt_byte sizeof_buf 240 v = v\<lparr>state := 0\<rparr>"
    by (simp add: nvt_byte_subneg)
  have D: "\<forall>v c. state (nvt_byte sizeof_buf c v) = 1 \<longrightarrow> state v = 1"
  proof (intro allI impI)
    fix v :: nvt and c :: byte
    assume a: "state (nvt_byte sizeof_buf c v) = 1"
    show "state v = 1"
    proof (rule ccontr)
      assume n: "state v \<noteq> 1"
      have "state (nvt_byte sizeof_buf c v) \<noteq> 1"
      proof (cases "state v = 0")
        case True
        then show ?thesis
          by (simp add: nvt_byte_def append_byte_def Let_def)
      next
        case False
        then show ?thesis
          using n by (simp add: nvt_byte_def append_byte_def)
      qed
      then show False using a by simp
    qed
  qed
  have E: "\<forall>v c. state v = 0 \<and> c \<noteq> 0xFF \<and> c \<noteq> 0 \<and> c \<noteq> 0x0A \<and> c \<noteq> 0x0D \<and> c \<noteq> 0x7F \<longrightarrow>
       sent (nvt_byte sizeof_buf c v)
         = sent v @ [if c \<le> 26 then [0x5E, c + 0x40] else [c]]"
    by (simp add: nvt_byte_def append_byte_def Let_def echo_caret)
  have F: "\<forall>v. state v = 2 \<longrightarrow>
       nvt_byte sizeof_buf 255 v =
         (if offset v + 1 < sizeof_buf
          then v\<lparr>buf := (buf v)[nat (offset v) := 255], offset := offset v + 1, state := 0\<rparr>
          else v\<lparr>state := 0\<rparr>)"
    by (simp add: nvt_byte_command append_byte_def)
  have G: "\<forall>cmd pre post buf0 fd rest.
         wf_cmd cmd \<and> (\<forall>b\<in>set pre. plain b) \<and> (\<forall>b\<in>set post. plain b)
         \<and> int (length pre) + int (length post) < sizeof_buf
         \<and> nat sizeof_buf \<le> length buf0
         \<and> incoming fd = map Byte (pre @ encode cmd @ post @ [0x0D]) @ rest
         \<longrightarrow>
         (\<exists>r. recv_nvt_line fd buf0 sizeof_buf 1 = Some r
            \<and> line r = pre @ post \<and> line_state r = 0
            \<and> outgoing (line_fd r)
                = outgoing fd @ map (\<lambda>c. if c \<le> 26 then [0x5E, c + 0x40] else [c]) post)"
  proof (intro allI impI)
    fix cmd :: telnet_cmd and pre post buf0 :: "byte list" and fd :: socket
      and rest :: "recv_result list"
    assume h: "wf_cmd cmd \<and> (\<forall>b\<in>set pre. plain b) \<and> (\<forall>b\<in>set post. plain b)
         \<and> int (length pre) + int (length post) < sizeof_buf
         \<and> nat sizeof_buf \<le> length buf0
         \<and> incoming fd = map Byte (pre @ encode cmd @ post @ [0x0D]) @ rest"
    have eq: "recv_nvt_line fd buf0 sizeof_buf 1 =
           Some \<lparr>ret = int (length pre) + int (length post),
                 line_buf = write_at (write_at buf0 0 pre) (length pre) post,
                 line_state = 0,
                 line_fd = \<lparr>incoming = rest,
                            outgoing = outgoing fd @ (if (1::int) = 0 then map echo pre else [])
                                         @ map echo post\<rparr>\<rparr>"
      using h by (intro line_with_command) auto
    have "length pre + length post \<le> length buf0"
      using h by auto
    then have "take (length pre + length post) (write_at (write_at buf0 0 pre) (length pre) post)
           = pre @ post"
      by (rule take_write_at_twice)
    then show "\<exists>r. recv_nvt_line fd buf0 sizeof_buf 1 = Some r
            \<and> line r = pre @ post \<and> line_state r = 0
            \<and> outgoing (line_fd r)
                = outgoing fd @ map (\<lambda>c. if c \<le> 26 then [0x5E, c + 0x40] else [c]) post"
      by (simp only: ech) (simp add: eq line_def nat_add_distrib)
  qed
  have H: "\<forall>cmd pre mid post buf0 fd rest.
         wf_cmd cmd \<and> (\<forall>b\<in>set pre. plain b) \<and> (\<forall>b\<in>set mid. plain b)
         \<and> (\<forall>b\<in>set post. plain b)
         \<and> int (length pre) + int (length mid) + 1 + int (length post) < sizeof_buf
         \<and> nat sizeof_buf \<le> length buf0
         \<and> incoming fd = map Byte (pre @ encode cmd @ mid @ [255, 255] @ post @ [0x0D]) @ rest
         \<longrightarrow>
         (\<exists>r. recv_nvt_line fd buf0 sizeof_buf 1 = Some r
            \<and> line r = pre @ mid @ [255] @ post \<and> line_state r = 0
            \<and> outgoing (line_fd r)
                = outgoing fd
                  @ map (\<lambda>c. if c \<le> 26 then [0x5E, c + 0x40] else [c]) (mid @ post))"
  proof (intro allI impI)
    fix cmd :: telnet_cmd and pre mid post buf0 :: "byte list" and fd :: socket
      and rest :: "recv_result list"
    assume h: "wf_cmd cmd \<and> (\<forall>b\<in>set pre. plain b) \<and> (\<forall>b\<in>set mid. plain b)
         \<and> (\<forall>b\<in>set post. plain b)
         \<and> int (length pre) + int (length mid) + 1 + int (length post) < sizeof_buf
         \<and> nat sizeof_buf \<le> length buf0
         \<and> incoming fd = map Byte (pre @ encode cmd @ mid @ [255, 255] @ post @ [0x0D]) @ rest"
    let ?l = "pre @ mid @ [255] @ post"
    have eq: "recv_nvt_line fd buf0 sizeof_buf 1 =
           Some \<lparr>ret = int (length pre) + int (length mid) + 1 + int (length post),
                 line_buf = write_at buf0 0 ?l,
                 line_state = 0,
                 line_fd = \<lparr>incoming = rest,
                            outgoing = outgoing fd @ (if (1::int) = 0 then map echo pre else [])
                                         @ map echo mid @ map echo post\<rparr>\<rparr>"
      using h by (intro line_with_command_and_escape) auto
    have "take (length ?l) (write_at buf0 0 ?l) = ?l"
      using h by (intro take_write_at_0 [of sizeof_buf]) auto
    moreover have "nat (int (length pre) + int (length mid) + 1 + int (length post)) = length ?l"
      by simp
    ultimately have "line \<lparr>ret = int (length pre) + int (length mid) + 1 + int (length post),
                 line_buf = write_at buf0 0 ?l,
                 line_state = 0,
                 line_fd = \<lparr>incoming = rest,
                            outgoing = outgoing fd @ (if (1::int) = 0 then map echo pre else [])
                                         @ map echo mid @ map echo post\<rparr>\<rparr> = ?l"
      by (simp only: line_def line_result.select_convs)
    then show "\<exists>r. recv_nvt_line fd buf0 sizeof_buf 1 = Some r
            \<and> line r = pre @ mid @ [255] @ post \<and> line_state r = 0
            \<and> outgoing (line_fd r)
                = outgoing fd
                  @ map (\<lambda>c. if c \<le> 26 then [0x5E, c + 0x40] else [c]) (mid @ post)"
      by (simp only: ech) (simp add: eq)
  qed
  show ?thesis
    using A B C D E F G H by (intro conjI)
qed

theorem negotiation_exits_to_echo_witness:
  "map_option (\<lambda>r. (line r, line_state r, outgoing (line_fd r)))
     (recv_nvt_line
        \<lparr>incoming = map Byte (bytes ''pa'' @ encode (Option_cmd 253 1) @ [0x01, 0x73] @ [255, 255]
                                 @ bytes ''sw'' @ [0x0D]) @ [],
         outgoing = []\<rparr>
        [0, 0, 0, 0, 0, 0, 0, 0] 8 1)
   = Some (bytes ''pa'' @ [0x01, 0x73, 0xFF] @ bytes ''sw'', 0,
           [[0x5E, 0x41], [0x73], [0x73], [0x77]])"
proof -
  have "\<exists>r. recv_nvt_line
               \<lparr>incoming = map Byte (bytes ''pa'' @ encode (Option_cmd 253 1) @ [0x01, 0x73]
                                        @ [255, 255] @ bytes ''sw'' @ [0x0D]) @ [],
                outgoing = []\<rparr>
               [0, 0, 0, 0, 0, 0, 0, 0] 8 1 = Some r
          \<and> line r = bytes ''pa'' @ [0x01, 0x73] @ [255] @ bytes ''sw'' \<and> line_state r = 0
          \<and> outgoing (line_fd r) =
               outgoing \<lparr>incoming = map Byte (bytes ''pa'' @ encode (Option_cmd 253 1)
                                               @ [0x01, 0x73] @ [255, 255] @ bytes ''sw''
                                               @ [0x0D]) @ [],
                         outgoing = []\<rparr>
               @ map (\<lambda>c. if c \<le> 26 then [0x5E, c + 0x40] else [c]) ([0x01, 0x73] @ bytes ''sw'')"
    using negotiation_exits_to_echo [of 8,
        THEN conjunct2, THEN conjunct2, THEN conjunct2, THEN conjunct2, THEN conjunct2,
        THEN conjunct2, THEN conjunct2, rule_format,
        of "Option_cmd 253 1" "bytes ''pa''" "[0x01, 0x73]" "bytes ''sw''"
           "[0, 0, 0, 0, 0, 0, 0, 0]"
           "\<lparr>incoming = map Byte (bytes ''pa'' @ encode (Option_cmd 253 1) @ [0x01, 0x73]
                                    @ [255, 255] @ bytes ''sw'' @ [0x0D]) @ [],
            outgoing = []\<rparr>" "[]"]
    by (simp add: bytes_def plain_def)
  then show ?thesis
    by (auto simp: bytes_def)
qed

text \<open>
  The claim as it was stated fails for the escaped IAC: in a read that begins in state 1,
  after IAC DO 1 the bytes IAC IAC put the content byte \<open>0xFF\<close> into the line, and only
  the byte after it is echoed.
\<close>

theorem escaped_iac_not_echoed_counterexample:
  "map_option line
     (recv_nvt_line
        \<lparr>incoming = map Byte [0x70, 255, 253, 1, 255, 255, 0x73, 0x0D], outgoing = []\<rparr>
        [0, 0, 0, 0, 0, 0, 0, 0] 8 1)
   = Some [0x70, 0xFF, 0x73]
   \<and> map_option (outgoing \<circ> line_fd)
     (recv_nvt_line
        \<lparr>incoming = map Byte [0x70, 255, 253, 1, 255, 255, 0x73, 0x0D], outgoing = []\<rparr>
        [0, 0, 0, 0, 0, 0, 0, 0] 8 1)
   = Some [[0x73]]"
  by code_simp

section \<open>The bound on the line\<close>








section \<open>End of stream and read errors\<close>

text \<open>
  Claim C6, as amended. Let the bytes \<open>bs\<close> arrive without completing the line, and let
  \<open>w\<close> be the variables of the reader after them. If \<^verbatim>\<open>recv\<close> then yields 0 and no
  content has been accumulated, the call returns 0 and stores the current state in the
  caller's variable. If \<^verbatim>\<open>recv\<close> yields 0 and content has been accumulated, the call
  returns the accumulated content as a complete line, and stores the current state. If
  \<^verbatim>\<open>recv\<close> yields a negative result, the call returns -1 at once, whether content has
  been accumulated or not, and the caller's variable keeps the value it had when the
  call began.
\<close>

theorem end_of_stream:
  assumes "nvt_feed sizeof_buf bs
             \<lparr>buf = buf0, offset = 0, state = in_state, is_done = False, sent = outgoing fd\<rparr>
           = Some w"
  shows "(offset w = 0 \<and> incoming fd = map Byte bs @ Eof # rest \<longrightarrow>
            recv_nvt_line fd buf0 sizeof_buf in_state =
              Some \<lparr>ret = 0, line_buf = buf w, line_state = state w,
                    line_fd = \<lparr>incoming = rest, outgoing = sent w\<rparr>\<rparr>)
       \<and> (offset w \<noteq> 0 \<and> incoming fd = map Byte bs @ Eof # rest \<longrightarrow>
            recv_nvt_line fd buf0 sizeof_buf in_state =
              Some \<lparr>ret = offset w, line_buf = buf w, line_state = state w,
                    line_fd = \<lparr>incoming = rest, outgoing = sent w\<rparr>\<rparr>)
       \<and> (incoming fd = map Byte bs @ Err # rest \<longrightarrow>
            recv_nvt_line fd buf0 sizeof_buf in_state =
              Some \<lparr>ret = - 1, line_buf = buf w, line_state = in_state,
                    line_fd = \<lparr>incoming = rest, outgoing = sent w\<rparr>\<rparr>)"
proof -
  let ?v = "\<lparr>buf = buf0, offset = 0, state = in_state, is_done = False, sent = outgoing fd\<rparr>"
  have loop: "nvt_loop sizeof_buf in_state (map Byte bs @ rs) ?v = nvt_loop sizeof_buf in_state rs w"
    for rs
    using assms by (rule nvt_loop_feed)
  show ?thesis
    by (simp add: recv_nvt_line_def loop finish_def)
qed

theorem end_of_stream_witness:
  "recv_nvt_line \<lparr>incoming = map Byte [0xFF] @ Eof # [], outgoing = []\<rparr> [0, 0, 0, 0] 4 0
     = Some \<lparr>ret = 0, line_buf = [0, 0, 0, 0], line_state = 2,
             line_fd = \<lparr>incoming = [], outgoing = []\<rparr>\<rparr>
   \<and> recv_nvt_line \<lparr>incoming = map Byte [0x61, 0x62] @ Eof # [], outgoing = []\<rparr> [0, 0, 0, 0] 4 1
     = Some \<lparr>ret = 2, line_buf = [0x61, 0x62, 0, 0], line_state = 1,
             line_fd = \<lparr>incoming = [], outgoing = []\<rparr>\<rparr>
   \<and> recv_nvt_line \<lparr>incoming = map Byte [0x61, 0x62] @ Err # [], outgoing = []\<rparr> [0, 0, 0, 0] 4 1
     = Some \<lparr>ret = - 1, line_buf = [0x61, 0x62, 0, 0], line_state = 1,
             line_fd = \<lparr>incoming = [], outgoing = []\<rparr>\<rparr>"
proof -
  have a: "nvt_feed 4 [0xFF]
             \<lparr>buf = [0, 0, 0, 0], offset = 0, state = 0, is_done = False,
              sent = outgoing \<lparr>incoming = map Byte [0xFF] @ Eof # [], outgoing = []\<rparr>\<rparr>
           = Some \<lparr>buf = [0, 0, 0, 0], offset = 0, state = 2, is_done = False, sent = []\<rparr>"
    by (simp add: nvt_byte_def)
  have b: "nvt_feed 4 [0x61, 0x62]
             \<lparr>buf = [0, 0, 0, 0], offset = 0, state = 1, is_done = False,
              sent = outgoing \<lparr>incoming = map Byte [0x61, 0x62] @ Eof # [], outgoing = []\<rparr>\<rparr>
           = Some \<lparr>buf = [0x61, 0x62, 0, 0], offset = 2, state = 1, is_done = False, sent = []\<rparr>"
    by (simp add: nvt_byte_def append_byte_def Let_def)
  have c: "nvt_feed 4 [0x61, 0x62]
             \<lparr>buf = [0, 0, 0, 0], offset = 0, state = 1, is_done = False,
              sent = outgoing \<lparr>incoming = map Byte [0x61, 0x62] @ Err # [], outgoing = []\<rparr>\<rparr>
           = Some \<lparr>buf = [0x61, 0x62, 0, 0], offset = 2, state = 1, is_done = False, sent = []\<rparr>"
    by (simp add: nvt_byte_def append_byte_def Let_def)
  show ?thesis
    using end_of_stream [OF a, of "[]"] end_of_stream [OF b, of "[]"] end_of_stream [OF c, of "[]"]
    by simp
qed

text \<open>
  The claim as it was stated fails for a negative result: after IAC the reader is in
  state 2, and when \<^verbatim>\<open>recv\<close> then fails the caller's variable is still 0.
\<close>

theorem state_not_persisted_counterexample:
  "map_option state
     (nvt_feed 4 [0xFF]
        \<lparr>buf = [0, 0, 0, 0], offset = 0, state = 0, is_done = False, sent = []\<rparr>) = Some 2
   \<and> recv_nvt_line \<lparr>incoming = [Byte 0xFF, Err], outgoing = []\<rparr> [0, 0, 0, 0] 4 0
     = Some \<lparr>ret = - 1, line_buf = [0, 0, 0, 0], line_state = 0,
             line_fd = \<lparr>incoming = [], outgoing = []\<rparr>\<rparr>"
  by (simp add: recv_nvt_line_def nvt_byte_def)

section \<open>The sanitizer\<close>

lemma print_string_from_eq:
  assumes "0 \<le> i" and "len \<le> int (length str)"
  shows "print_string_from i fp str len
           = fp @ concat (map print_char (drop (nat i) (take (nat len) str)))"
  using assms
proof (induction i fp str len rule: print_string_from.induct)
  case (1 i fp str len)
  show ?case
  proof (cases "i < len")
    case True
    have n: "nat i < length (take (nat len) str)"
      using True 1(2,3) by auto
    have "print_string_from i fp str len
            = print_string_from (i + 1) (fp @ print_char (str ! nat i)) str len"
      using True by (subst print_string_from.simps) simp
    also have "\<dots> = (fp @ print_char (str ! nat i))
                       @ concat (map print_char (drop (nat (i + 1)) (take (nat len) str)))"
      using True 1 by simp
    also have "\<dots> = fp @ concat (map print_char (drop (nat i) (take (nat len) str)))"
    proof -
      have "drop (nat i) (take (nat len) str)
              = take (nat len) str ! nat i # drop (Suc (nat i)) (take (nat len) str)"
        using n by (rule Cons_nth_drop_Suc [symmetric])
      moreover have "take (nat len) str ! nat i = str ! nat i"
        using n by simp
      moreover have "nat (i + 1) = Suc (nat i)"
        using 1(2) by simp
      ultimately show ?thesis by simp
    qed
    finally show ?thesis .
  next
    case False
    then have "drop (nat i) (take (nat len) str) = []"
      using 1(2) by auto
    then show ?thesis
      using False by (subst print_string_from.simps) simp
  qed
qed

lemma print_string_eq:
  assumes "len \<le> int (length str)"
  shows "print_string fp str len = fp @ concat (map print_char (take (nat len) str))"
  using print_string_from_eq [of 0 len str fp] assms by (simp add: print_string_def)

lemma hex_digit_table:
  assumes "d < 16"
  shows "hex_digit d = bytes ''0123456789abcdef'' ! unat d"
proof -
  have "unat d < 16"
    using assms by (simp add: word_less_nat_alt)
  then have "unat d = 0 \<or> unat d = 1 \<or> unat d = 2 \<or> unat d = 3 \<or> unat d = 4
      \<or> unat d = 5 \<or> unat d = 6 \<or> unat d = 7 \<or> unat d = 8 \<or> unat d = 9 \<or> unat d = 10
      \<or> unat d = 11 \<or> unat d = 12 \<or> unat d = 13 \<or> unat d = 14 \<or> unat d = 15"
    by arith
  then have "d = 0 \<or> d = 1 \<or> d = 2 \<or> d = 3 \<or> d = 4 \<or> d = 5 \<or> d = 6 \<or> d = 7 \<or> d = 8
      \<or> d = 9 \<or> d = 10 \<or> d = 11 \<or> d = 12 \<or> d = 13 \<or> d = 14 \<or> d = 15"
    by (simp add: word_unat_eq_iff)
  then show ?thesis
    by (elim disjE) (simp_all add: hex_digit_def bytes_def)
qed

lemma hex_escape_table:
  "hex_escape c = [0x5C, 0x78, bytes ''0123456789abcdef'' ! unat (c div 16),
                   bytes ''0123456789abcdef'' ! unat (c mod 16)]"
proof -
  have "unat (c div 16) < 16"
    using unsigned_less [of c, where 'a = nat] by (simp add: unat_div)
  then have a: "c div 16 < 16"
    by (simp add: word_less_nat_alt)
  have "unat (c mod 16) < 16"
    by (simp add: unat_mod)
  then have b: "c mod 16 < 16"
    by (simp add: word_less_nat_alt)
  show ?thesis
    by (simp only: hex_escape_def hex_digit_table [OF a] hex_digit_table [OF b])
qed

text \<open>
  Claim C7, as amended. \<^verbatim>\<open>print_string\<close> renders each of the first \<^verbatim>\<open>len\<close> bytes on its
  own. A byte that is not printable, or is backslash, the left angle bracket \<open><\<close>,
  single quote, double quote, space or comma, is rendered as backslash, \<open>x\<close> and its two
  lower-case hexadecimal digits; every other byte is rendered unchanged, and the right
  angle bracket \<open>>\<close> is one of these. The password \<open>a,b\<close> is rendered as \<open>a\x2cb\<close>.
\<close>

theorem print_string_escapes:
  "(\<forall>c. \<not> isprint c \<or> c = 0x5C \<or> c = 0x3C \<or> c = 0x27 \<or> c = 0x22 \<or> c = 0x20 \<or> c = 0x2C \<longrightarrow>
       print_char c = [0x5C, 0x78, bytes ''0123456789abcdef'' ! unat (c div 16),
                       bytes ''0123456789abcdef'' ! unat (c mod 16)])
   \<and> (\<forall>c. isprint c \<and> c \<noteq> 0x5C \<and> c \<noteq> 0x3C \<and> c \<noteq> 0x27 \<and> c \<noteq> 0x22 \<and> c \<noteq> 0x20 \<and> c \<noteq> 0x2C \<longrightarrow>
       print_char c = [c])
   \<and> print_char 0x3E = [0x3E]
   \<and> (\<forall>fp str len. len \<le> int (length str) \<longrightarrow>
       print_string fp str len = fp @ concat (map print_char (take (nat len) str)))
   \<and> print_string [] (bytes ''a,b'') 3 = bytes ''a'' @ [0x5C] @ bytes ''x2cb''"
proof (intro conjI allI impI)
  fix c :: byte
  assume "\<not> isprint c \<or> c = 0x5C \<or> c = 0x3C \<or> c = 0x27 \<or> c = 0x22 \<or> c = 0x20 \<or> c = 0x2C"
  then have "print_char c = hex_escape c"
    by (auto simp: print_char_def)
  then show "print_char c = [0x5C, 0x78, bytes ''0123456789abcdef'' ! unat (c div 16),
                       bytes ''0123456789abcdef'' ! unat (c mod 16)]"
    by (simp only: hex_escape_table)
next
  fix c :: byte
  assume "isprint c \<and> c \<noteq> 0x5C \<and> c \<noteq> 0x3C \<and> c \<noteq> 0x27 \<and> c \<noteq> 0x22 \<and> c \<noteq> 0x20 \<and> c \<noteq> 0x2C"
  then show "print_char c = [c]"
    by (simp add: print_char_def)
next
  show "print_char 0x3E = [0x3E]"
    by (simp add: print_char_def isprint_def)
next
  fix fp str :: "byte list" and len :: int
  assume "len \<le> int (length str)"
  then show "print_string fp str len = fp @ concat (map print_char (take (nat len) str))"
    by (rule print_string_eq)
next
  have "print_string [] (bytes ''a,b'') 3 = [] @ concat (map print_char (take (nat 3) (bytes ''a,b'')))"
    by (rule print_string_eq) (simp add: bytes_def)
  then show "print_string [] (bytes ''a,b'') 3 = bytes ''a'' @ [0x5C] @ bytes ''x2cb''"
    by (simp add: bytes_def print_char_def isprint_def hex_escape_def hex_digit_def)
qed

theorem print_string_escapes_witness:
  "print_char 0x2C = [0x5C] @ bytes ''x2c''
   \<and> print_char 0x3C = [0x5C] @ bytes ''x3c''
   \<and> print_char 0x07 = [0x5C] @ bytes ''x07''
   \<and> print_char 0x72 = bytes ''r''
   \<and> print_string (bytes ''1.2.3.4,'') (bytes ''<b> '') 3 = bytes ''1.2.3.4,'' @ [0x5C] @ bytes ''x3cb>''"
proof -
  have a: "print_char 0x2C = [0x5C, 0x78, bytes ''0123456789abcdef'' ! unat ((0x2C::byte) div 16),
                       bytes ''0123456789abcdef'' ! unat ((0x2C::byte) mod 16)]"
    using print_string_escapes [THEN conjunct1, rule_format, of "0x2C"] by simp
  have b: "print_char 0x3C = [0x5C, 0x78, bytes ''0123456789abcdef'' ! unat ((0x3C::byte) div 16),
                       bytes ''0123456789abcdef'' ! unat ((0x3C::byte) mod 16)]"
    using print_string_escapes [THEN conjunct1, rule_format, of "0x3C"] by simp
  have c: "print_char 0x07 = [0x5C, 0x78, bytes ''0123456789abcdef'' ! unat ((0x07::byte) div 16),
                       bytes ''0123456789abcdef'' ! unat ((0x07::byte) mod 16)]"
    using print_string_escapes [THEN conjunct1, rule_format, of "0x07"] by (simp add: isprint_def)
  have d: "print_char 0x72 = [0x72]"
    using print_string_escapes [THEN conjunct2, THEN conjunct1, rule_format, of "0x72"]
    by (simp add: isprint_def)
  have e: "print_string (bytes ''1.2.3.4,'') (bytes ''<b> '') 3
             = bytes ''1.2.3.4,'' @ concat (map print_char (take (nat 3) (bytes ''<b> '')))"
    using print_string_escapes [THEN conjunct2, THEN conjunct2, THEN conjunct2, THEN conjunct1,
        rule_format, of 3 "bytes ''<b> ''" "bytes ''1.2.3.4,''"]
    by (simp add: bytes_def)
  have g: "print_char 0x3E = [0x3E]"
    using print_string_escapes [THEN conjunct2, THEN conjunct2, THEN conjunct1] .
  have h: "print_char 0x62 = [0x62]"
    using print_string_escapes [THEN conjunct2, THEN conjunct1, rule_format, of "0x62"]
    by (simp add: isprint_def)
  have t: "take 3 [0x3C, 0x62, 0x3E, 0x20 :: byte] = [0x3C, 0x62, 0x3E]"
    by (simp add: numeral_3_eq_3)
  show ?thesis
    using a b c d e by (simp add: bytes_def g h t unat_div unat_mod)
qed

text \<open>
  The claim as it was stated fails for the right angle bracket, which is printed as it is.
\<close>

theorem right_angle_bracket_counterexample:
  "print_string [] (bytes ''a>b'') 3 = bytes ''a>b''"
proof -
  have "print_string [] (bytes ''a>b'') 3 = [] @ concat (map print_char (take (nat 3) (bytes ''a>b'')))"
    by (rule print_string_eq) (simp add: bytes_def)
  then show ?thesis
    by (simp add: bytes_def print_char_def isprint_def)
qed

section \<open>Recording a pair\<close>

lemma print_csv_eq:
  assumes "login_len \<le> int (length login)" and "password_len \<le> int (length password)"
  shows "print_csv (Some w) hostname login login_len password password_len =
           Some (w @ hostname @ [0x2C] @ concat (map print_char (take (nat login_len) login))
                 @ [0x2C] @ concat (map print_char (take (nat password_len) password)) @ [0x0A])"
  using assms by (simp add: print_csv_def print_string_eq Let_def bytes_def)

text \<open>
  Claim C2, as amended. The operation a session invokes after a completed attempt is
  \<^verbatim>\<open>print_csv\<close>, and it suppresses nothing: for every peer, username and password it
  writes the peer, a comma, the sanitized username, a comma, the sanitized password and a
  line feed, so \<open>1.2.3.4\<close>, \<open>root\<close>, \<open>123456\<close> give the line \<open>1.2.3.4,root,123456\<close>, and
  \<open>enable\<close>, \<open>system\<close> give a line as well. The two pairs \<open>shell\<close>/\<open>sh\<close> and
  \<open>enable\<close>/\<open>system\<close> are suppressed by \<^verbatim>\<open>print_passwords\<close> only, which no session calls.
\<close>

theorem print_csv_emits_every_pair:
  "(\<forall>w hostname login login_len password password_len.
      login_len \<le> int (length login) \<and> password_len \<le> int (length password) \<longrightarrow>
      print_csv (Some w) hostname login login_len password password_len =
        Some (w @ hostname @ bytes '','' @ concat (map print_char (take (nat login_len) login))
              @ bytes '','' @ concat (map print_char (take (nat password_len) password))
              @ [0x0A]))
   \<and> print_csv (Some []) (bytes ''1.2.3.4'') (bytes ''root'') 4 (bytes ''123456'') 6
       = Some (bytes ''1.2.3.4,root,123456'' @ [0x0A])
   \<and> print_csv (Some []) (bytes ''1.2.3.4'') (bytes ''enable'') 6 (bytes ''system'') 6
       = Some (bytes ''1.2.3.4,enable,system'' @ [0x0A])
   \<and> (\<forall>w login password.
         take 5 login = bytes ''shell'' \<and> take 2 password = bytes ''sh'' \<longrightarrow>
         print_passwords (Some w) login 5 password 2 = Some w)
   \<and> (\<forall>w login password.
         take 6 login = bytes ''enable'' \<and> take 6 password = bytes ''system'' \<longrightarrow>
         print_passwords (Some w) login 6 password 6 = Some w)
   \<and> map_option stdout
        (handle_connection (bytes ''1.2.3.4'')
           \<lparr>incoming = map Byte (bytes ''root'' @ [0x0D] @ bytes ''123456'' @ [0x0D]) @ [Eof],
            outgoing = []\<rparr>
           (replicate 256 0) (replicate 256 0) (Some []))
      = Some (Some (bytes ''1.2.3.4,root,123456'' @ [0x0A]))"
proof (intro conjI allI impI)
  fix w hostname login password :: "byte list" and login_len password_len :: int
  assume "login_len \<le> int (length login) \<and> password_len \<le> int (length password)"
  then show "print_csv (Some w) hostname login login_len password password_len =
        Some (w @ hostname @ bytes '','' @ concat (map print_char (take (nat login_len) login))
              @ bytes '','' @ concat (map print_char (take (nat password_len) password))
              @ [0x0A])"
    by (simp add: print_csv_eq bytes_def)
next
  have "print_csv (Some []) (bytes ''1.2.3.4'') (bytes ''root'') 4 (bytes ''123456'') 6
          = Some ([] @ bytes ''1.2.3.4'' @ [0x2C]
                  @ concat (map print_char (take (nat 4) (bytes ''root'')))
                  @ [0x2C] @ concat (map print_char (take (nat 6) (bytes ''123456''))) @ [0x0A])"
    by (rule print_csv_eq) (simp_all add: bytes_def)
  then show "print_csv (Some []) (bytes ''1.2.3.4'') (bytes ''root'') 4 (bytes ''123456'') 6
       = Some (bytes ''1.2.3.4,root,123456'' @ [0x0A])"
    by (simp add: bytes_def print_char_def isprint_def)
next
  have "print_csv (Some []) (bytes ''1.2.3.4'') (bytes ''enable'') 6 (bytes ''system'') 6
          = Some ([] @ bytes ''1.2.3.4'' @ [0x2C]
                  @ concat (map print_char (take (nat 6) (bytes ''enable'')))
                  @ [0x2C] @ concat (map print_char (take (nat 6) (bytes ''system''))) @ [0x0A])"
    by (rule print_csv_eq) (simp_all add: bytes_def)
  then show "print_csv (Some []) (bytes ''1.2.3.4'') (bytes ''enable'') 6 (bytes ''system'') 6
       = Some (bytes ''1.2.3.4,enable,system'' @ [0x0A])"
    by (simp add: bytes_def print_char_def isprint_def)
next
  fix w login password :: "byte list"
  assume "take 5 login = bytes ''shell'' \<and> take 2 password = bytes ''sh''"
  then show "print_passwords (Some w) login 5 password 2 = Some w"
    by (simp add: print_passwords_def matches_def bytes_def)
next
  fix w login password :: "byte list"
  assume "take 6 login = bytes ''enable'' \<and> take 6 password = bytes ''system''"
  then show "print_passwords (Some w) login 6 password 6 = Some w"
    by (simp add: print_passwords_def matches_def bytes_def)
next
  show "map_option stdout
        (handle_connection (bytes ''1.2.3.4'')
           \<lparr>incoming = map Byte (bytes ''root'' @ [0x0D] @ bytes ''123456'' @ [0x0D]) @ [Eof],
            outgoing = []\<rparr>
           (replicate 256 0) (replicate 256 0) (Some []))
      = Some (Some (bytes ''1.2.3.4,root,123456'' @ [0x0A]))"
    by code_simp
qed

theorem print_csv_emits_every_pair_witness:
  "print_csv (Some []) (bytes ''1.2.3.4'') (bytes ''shell'') 5 (bytes ''sh'') 2
     = Some (bytes ''1.2.3.4,shell,sh'' @ [0x0A])
   \<and> print_passwords (Some []) (bytes ''shell'') 5 (bytes ''sh'') 2 = Some []
   \<and> print_passwords (Some []) (bytes ''enable'') 6 (bytes ''system'') 6 = Some []"
proof -
  have a: "print_csv (Some []) (bytes ''1.2.3.4'') (bytes ''shell'') 5 (bytes ''sh'') 2 =
        Some ([] @ bytes ''1.2.3.4'' @ bytes '','' @ concat (map print_char (take (nat 5) (bytes ''shell'')))
              @ bytes '','' @ concat (map print_char (take (nat 2) (bytes ''sh'')))
              @ [0x0A])"
    using print_csv_emits_every_pair [THEN conjunct1, rule_format,
        of 5 "bytes ''shell''" 2 "bytes ''sh''" "[]" "bytes ''1.2.3.4''"]
    by (simp add: bytes_def)
  have b: "print_passwords (Some []) (bytes ''shell'') 5 (bytes ''sh'') 2 = Some []"
    using print_csv_emits_every_pair [THEN conjunct2, THEN conjunct2, THEN conjunct2,
        THEN conjunct1, rule_format, of "bytes ''shell''" "bytes ''sh''" "[]"]
    by (simp add: bytes_def)
  have c: "print_passwords (Some []) (bytes ''enable'') 6 (bytes ''system'') 6 = Some []"
    using print_csv_emits_every_pair [THEN conjunct2, THEN conjunct2, THEN conjunct2,
        THEN conjunct2, THEN conjunct1, rule_format, of "bytes ''enable''" "bytes ''system''" "[]"]
    by (simp add: bytes_def)
  show ?thesis
    using a b c by (simp add: bytes_def print_char_def isprint_def)
qed

text \<open>
  The claim as it was stated fails: a session whose client submits \<open>shell\<close> and \<open>sh\<close>
  writes the line \<open>1.2.3.4,shell,sh\<close> to the standard output.
\<close>

theorem shell_sh_recorded_counterexample:
  "map_option stdout
     (handle_connection (bytes ''1.2.3.4'')
        \<lparr>incoming = map Byte (bytes ''shell'' @ [0x0D] @ bytes ''sh'' @ [0x0D]) @ [Eof],
         outgoing = []\<rparr>
        (replicate 256 0) (replicate 256 0) (Some []))
   = Some (Some (bytes ''1.2.3.4,shell,sh'' @ [0x0A]))"
  by code_simp

section \<open>The retry policy of a session\<close>

lemma nvt_byte_sent:
  "\<exists>es. sent (nvt_byte sz c v) = sent v @ es \<and> (\<forall>e\<in>set es. length e \<le> 3)"
  by (simp add: nvt_byte_def append_byte_def Let_def echo_def)

lemma nvt_loop_sent:
  assumes "nvt_loop sz ist rs v = Some r"
  shows "\<exists>es. outgoing (line_fd r) = sent v @ es \<and> (\<forall>e\<in>set es. length e \<le> 3)"
  using assms
proof (induction rs arbitrary: v)
  case Nil
  then show ?case by simp
next
  case (Cons x rs)
  show ?case
  proof (cases x)
    case (Byte c)
    let ?v = "nvt_byte sz c v"
    obtain es where es: "sent ?v = sent v @ es" "\<forall>e\<in>set es. length e \<le> 3"
      using nvt_byte_sent [of sz c v] by blast
    show ?thesis
    proof (cases "is_done ?v")
      case True
      then have "r = finish rs ?v"
        using Cons.prems Byte by (simp add: Let_def)
      then show ?thesis
        using es by (simp add: finish_def)
    next
      case False
      then have "nvt_loop sz ist rs ?v = Some r"
        using Cons.prems Byte by (simp add: Let_def)
      then obtain fs where "outgoing (line_fd r) = sent ?v @ fs" "\<forall>e\<in>set fs. length e \<le> 3"
        using Cons.IH by blast
      then have "outgoing (line_fd r) = sent v @ (es @ fs) \<and> (\<forall>e\<in>set (es @ fs). length e \<le> 3)"
        using es by auto
      then show ?thesis by blast
    qed
  next
    case Eof
    then show ?thesis
      using Cons.prems by (auto simp: finish_def split: if_splits)
  next
    case Err
    then show ?thesis
      using Cons.prems by auto
  qed
qed

lemma count_list_short:
  assumes "\<forall>e\<in>set es. length e \<le> 3" and "3 < length m"
  shows "count_list es m = 0"
  using assms by (auto simp: count_list_0_iff)

lemma recv_nvt_line_counts:
  assumes "recv_nvt_line fd b sz st = Some r"
  shows "prompts (outgoing (line_fd r)) = prompts (outgoing fd)
         \<and> rejections (outgoing (line_fd r)) = rejections (outgoing fd)"
proof -
  obtain es where es: "outgoing (line_fd r) = outgoing fd @ es" "\<forall>e\<in>set es. length e \<le> 3"
    using nvt_loop_sent [OF assms [unfolded recv_nvt_line_def]] by auto
  have "count_list es hello0 = 0" "count_list es login_prompt = 0"
    "count_list es login_incorrect = 0"
    using es(2)
    by (auto intro!: count_list_short simp: hello0_def login_prompt_def login_incorrect_def bytes_def)
  then show ?thesis
    by (simp add: prompts_def rejections_def es(1))
qed

lemma message_facts:
  "hello0 \<noteq> login_incorrect" "login_prompt \<noteq> login_incorrect"
  "password_prompt \<noteq> login_incorrect" "password_prompt \<noteq> hello0"
  "password_prompt \<noteq> login_prompt" "hello0 \<noteq> login_prompt"
  by (simp_all add: hello0_def login_prompt_def login_incorrect_def password_prompt_def bytes_def)

lemma send_counts:
  "prompts (outgoing (send fd m)) = prompts (outgoing fd) + (if m = hello0 \<or> m = login_prompt then 1 else 0)"
  "rejections (outgoing (send fd m)) = rejections (outgoing fd) + (if m = login_incorrect then 1 else 0)"
  using message_facts by (auto simp: prompts_def rejections_def send_def)

lemma again_counts:
  assumes "again peername hello tries st login password fd out = Some r"
    and "hello = hello0 \<or> hello = login_prompt" and "tries \<le> 5"
  shows "(stderr r = [Diag_close]
          \<and> rejections (outgoing (conn r)) = rejections (outgoing fd) + nat (6 - tries)
          \<and> prompts (outgoing (conn r)) = prompts (outgoing fd) + nat (6 - tries)
          \<and> last (outgoing (conn r)) = login_incorrect)
       \<or> (stderr r = [Diag_recv, Diag_close]
          \<and> (\<exists>k. rejections (outgoing (conn r)) = rejections (outgoing fd) + k
                 \<and> prompts (outgoing (conn r)) = prompts (outgoing fd) + k + 1
                 \<and> int k \<le> 5 - tries))"
  using assms
proof (induction peername hello tries st login password fd out arbitrary: r rule: again.induct)
  case (1 peername hello tries state0 login password fd out)
  let ?fd1 = "send fd hello"
  have run: "again peername hello tries state0 login password fd out = Some r"
    by (rule "1.prems"(1))
  obtain r1 where r1: "recv_nvt_line ?fd1 login 256 state0 = Some r1"
    using run by (subst (asm) again.simps) (auto simp: Let_def split: option.splits)
  have c1: "prompts (outgoing (line_fd r1)) = prompts (outgoing fd) + 1"
    "rejections (outgoing (line_fd r1)) = rejections (outgoing fd)"
    using recv_nvt_line_counts [OF r1] "1.prems"(2) message_facts by (auto simp: send_counts)
  show ?case
  proof (cases "ret r1 \<le> 0")
    case True
    then have "r = error_exit (line_fd r1) out"
      using run r1 by (subst (asm) again.simps) (simp add: Let_def)
    then have "stderr r = [Diag_recv, Diag_close]
          \<and> rejections (outgoing (conn r)) = rejections (outgoing fd) + 0
          \<and> prompts (outgoing (conn r)) = prompts (outgoing fd) + 0 + 1
          \<and> int 0 \<le> 5 - tries"
      using c1 "1.prems"(3) by (simp add: error_exit_def)
    then show ?thesis by blast
  next
    case pos1: False
    let ?fd2 = "send (line_fd r1) password_prompt"
    let ?st1 = "if line_state r1 = 0 then 1 else line_state r1"
    obtain r2 where r2: "recv_nvt_line ?fd2 password 256 ?st1 = Some r2"
      using run r1 pos1
      by (subst (asm) again.simps) (auto simp: Let_def split: option.splits)
    have c2: "prompts (outgoing (line_fd r2)) = prompts (outgoing fd) + 1"
      "rejections (outgoing (line_fd r2)) = rejections (outgoing fd)"
      using recv_nvt_line_counts [OF r2] c1 message_facts by (auto simp: send_counts)
    show ?thesis
    proof (cases "ret r2 \<le> 0")
      case True
      then have "r = error_exit (line_fd r2) out"
        using run r1 r2 pos1 by (subst (asm) again.simps) (simp add: Let_def)
      then have "stderr r = [Diag_recv, Diag_close]
            \<and> rejections (outgoing (conn r)) = rejections (outgoing fd) + 0
            \<and> prompts (outgoing (conn r)) = prompts (outgoing fd) + 0 + 1
            \<and> int 0 \<le> 5 - tries"
        using c2 "1.prems"(3) by (simp add: error_exit_def)
      then show ?thesis by blast
    next
      case pos2: False
      let ?out = "print_csv out peername (line_buf r1) (ret r1) (line_buf r2) (ret r2)"
      let ?st2 = "if line_state r2 = 1 then 0 else line_state r2"
      let ?fd3 = "send (line_fd r2) login_incorrect"
      have c3: "prompts (outgoing ?fd3) = prompts (outgoing fd) + 1"
        "rejections (outgoing ?fd3) = rejections (outgoing fd) + 1"
        using c2 message_facts by (auto simp: send_counts)
      show ?thesis
      proof (cases "tries < 5")
        case True
        have next_run: "again peername login_prompt (tries + 1) ?st2 (line_buf r1) (line_buf r2)
                ?fd3 ?out = Some r"
          using run r1 r2 pos1 pos2 True by (subst (asm) again.simps) (simp add: Let_def)
        have ih: "(stderr r = [Diag_close]
            \<and> rejections (outgoing (conn r)) = rejections (outgoing ?fd3) + nat (6 - (tries + 1))
            \<and> prompts (outgoing (conn r)) = prompts (outgoing ?fd3) + nat (6 - (tries + 1))
            \<and> last (outgoing (conn r)) = login_incorrect)
          \<or> (stderr r = [Diag_recv, Diag_close]
            \<and> (\<exists>k. rejections (outgoing (conn r)) = rejections (outgoing ?fd3) + k
                 \<and> prompts (outgoing (conn r)) = prompts (outgoing ?fd3) + k + 1
                 \<and> int k \<le> 5 - (tries + 1)))"
          using True
          by (intro "1.IH" [OF refl r1 pos1 refl refl r2 pos2 refl refl refl True next_run]) auto
        then show ?thesis
        proof
          assume a: "stderr r = [Diag_close]
            \<and> rejections (outgoing (conn r)) = rejections (outgoing ?fd3) + nat (6 - (tries + 1))
            \<and> prompts (outgoing (conn r)) = prompts (outgoing ?fd3) + nat (6 - (tries + 1))
            \<and> last (outgoing (conn r)) = login_incorrect"
          have "Suc (nat (6 - (tries + 1))) = nat (6 - tries)"
            using True by simp
          then show ?thesis
            using a c3 by simp
        next
          assume "stderr r = [Diag_recv, Diag_close]
            \<and> (\<exists>k. rejections (outgoing (conn r)) = rejections (outgoing ?fd3) + k
                 \<and> prompts (outgoing (conn r)) = prompts (outgoing ?fd3) + k + 1
                 \<and> int k \<le> 5 - (tries + 1))"
          then obtain k where k: "stderr r = [Diag_recv, Diag_close]"
            "rejections (outgoing (conn r)) = rejections (outgoing ?fd3) + k"
            "prompts (outgoing (conn r)) = prompts (outgoing ?fd3) + k + 1"
            "int k \<le> 5 - (tries + 1)"
            by blast
          have "rejections (outgoing (conn r)) = rejections (outgoing fd) + Suc k
                 \<and> prompts (outgoing (conn r)) = prompts (outgoing fd) + Suc k + 1
                 \<and> int (Suc k) \<le> 5 - tries"
            using k c3 by simp
          then show ?thesis
            using k(1) by blast
        qed
      next
        case False
        then have "r = end_exit ?fd3 ?out"
          using run r1 r2 pos1 pos2 by (subst (asm) again.simps) (simp add: Let_def)
        moreover have "nat (6 - tries) = 1"
          using False "1.prems"(3) by simp
        ultimately show ?thesis
          using c3 by (simp add: end_exit_def send_def)
      qed
    qed
  qed
qed

lemma recv_nvt_line_plain:
  assumes "st = 0 \<or> st = 1" and "\<forall>c\<in>set bs. plain c" and "int (length bs) < sz"
    and "incoming fd = map Byte bs @ Byte 0x0D # rest"
  shows "recv_nvt_line fd buf0 sz st =
           Some \<lparr>ret = int (length bs), line_buf = write_at buf0 0 bs, line_state = st,
                 line_fd = \<lparr>incoming = rest,
                            outgoing = outgoing fd @ (if st = 0 then map echo bs else [])\<rparr>\<rparr>"
proof -
  let ?v = "\<lparr>buf = buf0, offset = 0, state = st, is_done = False, sent = outgoing fd\<rparr>"
  let ?w = "?v\<lparr>buf := write_at (buf ?v) (nat (offset ?v)) bs,
               offset := offset ?v + int (length bs),
               sent := sent ?v @ (if state ?v = 0 then map echo bs else [])\<rparr>"
  have "recv_nvt_line fd buf0 sz st = nvt_loop sz st (map Byte bs @ (Byte 0x0D # rest)) ?v"
    by (simp add: recv_nvt_line_def assms(4))
  also have "\<dots> = nvt_loop sz st (Byte 0x0D # rest) ?w"
    using assms(1,2,3) by (intro nvt_loop_plain_run) auto
  also have "\<dots> = Some (finish rest (?w\<lparr>is_done := True\<rparr>))"
    using assms(1) by (intro nvt_loop_CR) auto
  finally show ?thesis
    by (simp add: finish_def)
qed

lemma again_attempt:
  assumes l: "good_line l" and p: "good_line p"
  shows "again peername hello tries 0 login password
           \<lparr>incoming = map Byte l @ Byte 0x0D # map Byte p @ Byte 0x0D # rest, outgoing = ms\<rparr> out
         = (if tries < 5
            then again peername login_prompt (tries + 1) 0 (write_at login 0 l) (write_at password 0 p)
                   \<lparr>incoming = rest,
                    outgoing = ms @ [hello] @ map echo l @ [password_prompt, login_incorrect]\<rparr>
                   (print_csv out peername (write_at login 0 l) (int (length l))
                      (write_at password 0 p) (int (length p)))
            else Some (end_exit
                   \<lparr>incoming = rest,
                    outgoing = ms @ [hello] @ map echo l @ [password_prompt, login_incorrect]\<rparr>
                   (print_csv out peername (write_at login 0 l) (int (length l))
                      (write_at password 0 p) (int (length p)))))"
proof -
  let ?fd1 = "\<lparr>incoming = map Byte l @ Byte 0x0D # map Byte p @ Byte 0x0D # rest,
              outgoing = ms @ [hello]\<rparr>"
  let ?fd2 = "\<lparr>incoming = map Byte p @ Byte 0x0D # rest,
              outgoing = ms @ hello # map echo l @ [password_prompt]\<rparr>"
  have r1: "recv_nvt_line ?fd1 login 256 0 =
              Some \<lparr>ret = int (length l), line_buf = write_at login 0 l, line_state = 0,
                    line_fd = \<lparr>incoming = map Byte p @ Byte 0x0D # rest,
                               outgoing = ms @ hello # map echo l\<rparr>\<rparr>"
    using l recv_nvt_line_plain [of 0 l 256 ?fd1 "map Byte p @ Byte 0x0D # rest" login]
    by (simp add: good_line_def)
  have r2: "recv_nvt_line ?fd2 password 256 1 =
              Some \<lparr>ret = int (length p), line_buf = write_at password 0 p, line_state = 1,
                    line_fd = \<lparr>incoming = rest,
                               outgoing = ms @ hello # map echo l @ [password_prompt]\<rparr>\<rparr>"
    using p recv_nvt_line_plain [of 1 p 256 ?fd2 rest password]
    by (simp add: good_line_def)
  have pos: "l \<noteq> []" "p \<noteq> []"
    using l p by (auto simp: good_line_def)
  show ?thesis
    by (subst again.simps) (simp add: Let_def send_def r1 r2 pos)
qed

lemma again_attempts_close:
  assumes "good_attempts as" and "length as = nat (6 - tries)" and "tries \<le> 5"
  shows "\<exists>r. again peername hello tries 0 login password
               \<lparr>incoming = attempts_input as @ rest, outgoing = ms\<rparr> out = Some r
             \<and> stderr r = [Diag_close] \<and> incoming (conn r) = rest"
  using assms
proof (induction as arbitrary: hello tries login password ms out)
  case Nil
  then show ?case by simp
next
  case (Cons a as)
  obtain l p where a: "a = (l, p)"
    by (cases a)
  have good: "good_line l" "good_line p" "good_attempts as"
    using Cons.prems(1) a by simp_all
  show ?case
  proof (cases "tries < 5")
    case True
    have "length as = nat (6 - (tries + 1))"
      using Cons.prems(2) True by simp
    then have "\<exists>r. again peername login_prompt (tries + 1) 0 (write_at login 0 l) (write_at password 0 p)
                   \<lparr>incoming = attempts_input as @ rest,
                    outgoing = ms @ [hello] @ map echo l @ [password_prompt, login_incorrect]\<rparr>
                   (print_csv out peername (write_at login 0 l) (int (length l))
                      (write_at password 0 p) (int (length p))) = Some r
             \<and> stderr r = [Diag_close] \<and> incoming (conn r) = rest"
      using good(3) True by (intro Cons.IH) auto
    then show ?thesis
      using True by (simp add: a again_attempt [OF good(1,2)])
  next
    case False
    then have "as = []"
      using Cons.prems(2,3) by simp
    then show ?thesis
      using False by (simp add: a again_attempt [OF good(1,2)] end_exit_def)
  qed
qed

lemma count_list_echo: "3 < length m \<Longrightarrow> count_list (map echo l) m = 0"
  by (rule count_list_short) (auto simp: echo_def)

lemma again_attempts_eof:
  assumes "good_attempts as" and "int (length as) \<le> 5 - tries"
    and "hello = hello0 \<or> hello = login_prompt"
  shows "\<exists>r. again peername hello tries 0 login password
               \<lparr>incoming = attempts_input as @ Eof # rest, outgoing = ms\<rparr> out = Some r
             \<and> stderr r = [Diag_recv, Diag_close]
             \<and> rejections (outgoing (conn r)) = rejections ms + length as
             \<and> prompts (outgoing (conn r)) = prompts ms + length as + 1"
  using assms
proof (induction as arbitrary: hello tries login password ms out)
  case Nil
  have "recv_nvt_line (send \<lparr>incoming = Eof # rest, outgoing = ms\<rparr> hello) login 256 0
          = Some \<lparr>ret = 0, line_buf = login, line_state = 0,
                  line_fd = \<lparr>incoming = rest, outgoing = ms @ [hello]\<rparr>\<rparr>"
    by (simp add: recv_nvt_line_def send_def)
  then have "again peername hello tries 0 login password
               \<lparr>incoming = attempts_input [] @ Eof # rest, outgoing = ms\<rparr> out
             = Some (error_exit \<lparr>incoming = rest, outgoing = ms @ [hello]\<rparr> out)"
    by (subst again.simps) (simp add: Let_def)
  then show ?case
    using Nil.prems(3) message_facts
    by (auto simp: error_exit_def prompts_def rejections_def)
next
  case (Cons a as)
  obtain l p where a: "a = (l, p)"
    by (cases a)
  have good: "good_line l" "good_line p" "good_attempts as"
    using Cons.prems(1) a by simp_all
  have lt: "tries < 5"
    using Cons.prems(2) by simp
  let ?ms = "ms @ hello # map echo l @ [password_prompt, login_incorrect]"
  have cnt: "rejections ?ms = rejections ms + 1" "prompts ?ms = prompts ms + 1"
    using Cons.prems(3) message_facts
    by (auto simp: prompts_def rejections_def count_list_echo hello0_def login_prompt_def
        login_incorrect_def bytes_def)
  have "\<exists>r. again peername login_prompt (tries + 1) 0 (write_at login 0 l) (write_at password 0 p)
                   \<lparr>incoming = attempts_input as @ Eof # rest, outgoing = ?ms\<rparr>
                   (print_csv out peername (write_at login 0 l) (int (length l))
                      (write_at password 0 p) (int (length p))) = Some r
             \<and> stderr r = [Diag_recv, Diag_close]
             \<and> rejections (outgoing (conn r)) = rejections ?ms + length as
             \<and> prompts (outgoing (conn r)) = prompts ?ms + length as + 1"
    using good(3) Cons.prems(2) by (intro Cons.IH) auto
  then show ?case
    using lt by (simp add: a again_attempt [OF good(1,2)]) (simp add: cnt)
qed

text \<open>
  Claim C3, as amended. \<^verbatim>\<open>tries++ < 5\<close> compares the number of attempts completed
  before the current one, so the cap is 5 retries, 6 completed attempts. For every
  connection, at most 6 login prompts and at most 6 messages \<^verbatim>\<open>Login incorrect\<close> are
  sent. A session that ends without a failed read has sent exactly 6 of each, and the
  6th \<^verbatim>\<open>Login incorrect\<close> is the last message it sent: there is no 7th prompt. A session
  that ends on a failed read has sent one prompt more than rejections: every one of the
  first five rejections is followed by a further login prompt. A client that completes
  6 attempts is disconnected whatever it sends next; a client that completes 5 or fewer
  and then shuts the connection down has received one prompt per attempt and one more.
\<close>

theorem session_retry_cap:
  "(\<forall>peername fd login0 password0 out r.
      outgoing fd = [] \<and> handle_connection peername fd login0 password0 out = Some r \<longrightarrow>
        rejections (outgoing (conn r)) \<le> 6 \<and> prompts (outgoing (conn r)) \<le> 6
        \<and> (stderr r = [Diag_close] \<longrightarrow>
             rejections (outgoing (conn r)) = 6 \<and> prompts (outgoing (conn r)) = 6
             \<and> last (outgoing (conn r)) = login_incorrect)
        \<and> (stderr r \<noteq> [Diag_close] \<longrightarrow>
             stderr r = [Diag_recv, Diag_close]
             \<and> prompts (outgoing (conn r)) = rejections (outgoing (conn r)) + 1))
   \<and> (\<forall>peername as rest login0 password0 out.
         good_attempts as \<and> length as = 6 \<longrightarrow>
         (\<exists>r. handle_connection peername \<lparr>incoming = attempts_input as @ rest, outgoing = []\<rparr>
                login0 password0 out = Some r
            \<and> stderr r = [Diag_close] \<and> incoming (conn r) = rest))
   \<and> (\<forall>peername as rest login0 password0 out.
         good_attempts as \<and> length as \<le> 5 \<longrightarrow>
         (\<exists>r. handle_connection peername
                \<lparr>incoming = attempts_input as @ Eof # rest, outgoing = []\<rparr>
                login0 password0 out = Some r
            \<and> stderr r = [Diag_recv, Diag_close]
            \<and> rejections (outgoing (conn r)) = length as
            \<and> prompts (outgoing (conn r)) = length as + 1))"
proof -
  have A: "(\<forall>peername fd login0 password0 out r.
      outgoing fd = [] \<and> handle_connection peername fd login0 password0 out = Some r \<longrightarrow>
        rejections (outgoing (conn r)) \<le> 6 \<and> prompts (outgoing (conn r)) \<le> 6
        \<and> (stderr r = [Diag_close] \<longrightarrow>
             rejections (outgoing (conn r)) = 6 \<and> prompts (outgoing (conn r)) = 6
             \<and> last (outgoing (conn r)) = login_incorrect)
        \<and> (stderr r \<noteq> [Diag_close] \<longrightarrow>
             stderr r = [Diag_recv, Diag_close]
             \<and> prompts (outgoing (conn r)) = rejections (outgoing (conn r)) + 1))"
  proof (intro allI impI)
    fix peername login0 password0 :: "byte list" and fd :: socket
      and out :: "byte list option" and r :: session_result
    assume h: "outgoing fd = [] \<and> handle_connection peername fd login0 password0 out = Some r"
    then have "again peername hello0 0 0 login0 password0 fd out = Some r"
      by (simp add: handle_connection_def)
    then have "(stderr r = [Diag_close]
            \<and> rejections (outgoing (conn r)) = rejections (outgoing fd) + nat (6 - 0)
            \<and> prompts (outgoing (conn r)) = prompts (outgoing fd) + nat (6 - 0)
            \<and> last (outgoing (conn r)) = login_incorrect)
         \<or> (stderr r = [Diag_recv, Diag_close]
            \<and> (\<exists>k. rejections (outgoing (conn r)) = rejections (outgoing fd) + k
                   \<and> prompts (outgoing (conn r)) = prompts (outgoing fd) + k + 1
                   \<and> int k \<le> 5 - 0))"
      by (rule again_counts) simp_all
    then have c: "(stderr r = [Diag_close]
            \<and> rejections (outgoing (conn r)) = 6 \<and> prompts (outgoing (conn r)) = 6
            \<and> last (outgoing (conn r)) = login_incorrect)
         \<or> (stderr r = [Diag_recv, Diag_close]
            \<and> (\<exists>k. rejections (outgoing (conn r)) = k \<and> prompts (outgoing (conn r)) = k + 1
                   \<and> k \<le> 5))"
      using h by (simp add: prompts_def rejections_def)
    then show "rejections (outgoing (conn r)) \<le> 6 \<and> prompts (outgoing (conn r)) \<le> 6
        \<and> (stderr r = [Diag_close] \<longrightarrow>
             rejections (outgoing (conn r)) = 6 \<and> prompts (outgoing (conn r)) = 6
             \<and> last (outgoing (conn r)) = login_incorrect)
        \<and> (stderr r \<noteq> [Diag_close] \<longrightarrow>
             stderr r = [Diag_recv, Diag_close]
             \<and> prompts (outgoing (conn r)) = rejections (outgoing (conn r)) + 1)"
      by auto
  qed
  have B: "(\<forall>peername as rest login0 password0 out.
         good_attempts as \<and> length as = 6 \<longrightarrow>
         (\<exists>r. handle_connection peername \<lparr>incoming = attempts_input as @ rest, outgoing = []\<rparr>
                login0 password0 out = Some r
            \<and> stderr r = [Diag_close] \<and> incoming (conn r) = rest))"
  proof (intro allI impI)
    fix peername login0 password0 :: "byte list" and out :: "byte list option"
      and as :: "(byte list \<times> byte list) list" and rest :: "recv_result list"
    assume "good_attempts as \<and> length as = 6"
    then have "\<exists>r. again peername hello0 0 0 login0 password0
                 \<lparr>incoming = attempts_input as @ rest, outgoing = []\<rparr> out = Some r
               \<and> stderr r = [Diag_close] \<and> incoming (conn r) = rest"
      by (intro again_attempts_close) simp_all
    then show "\<exists>r. handle_connection peername \<lparr>incoming = attempts_input as @ rest, outgoing = []\<rparr>
                  login0 password0 out = Some r
              \<and> stderr r = [Diag_close] \<and> incoming (conn r) = rest"
      by (simp add: handle_connection_def)
  qed
  have C: "(\<forall>peername as rest login0 password0 out.
         good_attempts as \<and> length as \<le> 5 \<longrightarrow>
         (\<exists>r. handle_connection peername
                \<lparr>incoming = attempts_input as @ Eof # rest, outgoing = []\<rparr>
                login0 password0 out = Some r
            \<and> stderr r = [Diag_recv, Diag_close]
            \<and> rejections (outgoing (conn r)) = length as
            \<and> prompts (outgoing (conn r)) = length as + 1))"
  proof (intro allI impI)
    fix peername login0 password0 :: "byte list" and out :: "byte list option"
      and as :: "(byte list \<times> byte list) list" and rest :: "recv_result list"
    assume "good_attempts as \<and> length as \<le> 5"
    then have "\<exists>r. again peername hello0 0 0 login0 password0
                 \<lparr>incoming = attempts_input as @ Eof # rest, outgoing = []\<rparr> out = Some r
               \<and> stderr r = [Diag_recv, Diag_close]
               \<and> rejections (outgoing (conn r)) = rejections [] + length as
               \<and> prompts (outgoing (conn r)) = prompts [] + length as + 1"
      by (intro again_attempts_eof) simp_all
    then show "\<exists>r. handle_connection peername
                  \<lparr>incoming = attempts_input as @ Eof # rest, outgoing = []\<rparr>
                  login0 password0 out = Some r
              \<and> stderr r = [Diag_recv, Diag_close]
              \<and> rejections (outgoing (conn r)) = length as
              \<and> prompts (outgoing (conn r)) = length as + 1"
      by (simp add: handle_connection_def prompts_def rejections_def)
  qed
  show ?thesis
    using A B C by (intro conjI)
qed

theorem session_retry_cap_witness:
  "map_option (\<lambda>r. (stderr r, incoming (conn r), rejections (outgoing (conn r)),
                    prompts (outgoing (conn r)), last (outgoing (conn r)) = login_incorrect))
     (handle_connection (bytes ''1.2.3.4'')
        \<lparr>incoming = attempts_input
                      [([0x61], [0x62]), ([0x61], [0x62]), ([0x61], [0x62]),
                       ([0x61], [0x62]), ([0x61], [0x62]), ([0x61], [0x62])] @ [Byte 0x63],
         outgoing = []\<rparr>
        (replicate 256 0) (replicate 256 0) (Some []))
   = Some ([Diag_close], [Byte 0x63], 6, 6, True)"
proof -
  let ?fd = "\<lparr>incoming = attempts_input
                      [([0x61], [0x62]), ([0x61], [0x62]), ([0x61], [0x62]),
                       ([0x61], [0x62]), ([0x61], [0x62]), ([0x61], [0x62])] @ [Byte 0x63],
             outgoing = []\<rparr>"
  obtain r where r: "handle_connection (bytes ''1.2.3.4'') ?fd (replicate 256 0) (replicate 256 0)
                       (Some []) = Some r"
    "stderr r = [Diag_close]" "incoming (conn r) = [Byte 0x63]"
    using session_retry_cap [THEN conjunct2, THEN conjunct1, rule_format,
        of "[([0x61], [0x62]), ([0x61], [0x62]), ([0x61], [0x62]),
             ([0x61], [0x62]), ([0x61], [0x62]), ([0x61], [0x62])]"
           "bytes ''1.2.3.4''" "[Byte 0x63]" "replicate 256 0" "replicate 256 0" "Some []"]
    by (auto simp: good_line_def plain_def)
  have "rejections (outgoing (conn r)) = 6 \<and> prompts (outgoing (conn r)) = 6
             \<and> last (outgoing (conn r)) = login_incorrect"
    using session_retry_cap [THEN conjunct1, rule_format,
        of ?fd "bytes ''1.2.3.4''" "replicate 256 0" "replicate 256 0" "Some []" r] r(1,2)
    by simp
  then show ?thesis
    using r by simp
qed

text \<open>
  The claim as it was stated fails: after the 5th \<^verbatim>\<open>Login incorrect\<close> the session sends
  a 6th login prompt.
\<close>

theorem sixth_prompt_counterexample:
  "map_option (rejections \<circ> outgoing \<circ> conn)
     (handle_connection (bytes ''1.2.3.4'')
        \<lparr>incoming = attempts_input
                      [([0x61], [0x62]), ([0x61], [0x62]), ([0x61], [0x62]),
                       ([0x61], [0x62]), ([0x61], [0x62])] @ [Eof],
         outgoing = []\<rparr>
        (replicate 256 0) (replicate 256 0) (Some []))
   = Some 5
   \<and> map_option (drop 19 \<circ> outgoing \<circ> conn)
     (handle_connection (bytes ''1.2.3.4'')
        \<lparr>incoming = attempts_input
                      [([0x61], [0x62]), ([0x61], [0x62]), ([0x61], [0x62]),
                       ([0x61], [0x62]), ([0x61], [0x62])] @ [Eof],
         outgoing = []\<rparr>
        (replicate 256 0) (replicate 256 0) (Some []))
   = Some [login_incorrect, login_prompt]"
  by code_simp

end
